theory Spec2Isabelle
  imports Main
begin

section \<open>The zipper package (pkg/zipper/zipper.go)\<close>

text \<open>
  \<^verbatim>\<open>Zip\<close> creates the output file, wraps it in a zip writer, and adds every input
  to it: a directory by walking it, a file directly. Everything \<^verbatim>\<open>Zip\<close> asks of
  the operating system and of Go's \<^verbatim>\<open>path/filepath\<close>, \<^verbatim>\<open>os\<close> and
  \<^verbatim>\<open>archive/zip\<close> packages is a field of the record \<open>host\<close>; the functions
  below are the code of the package over such a host. The file system does not change
  while a job runs: a field answers the same question the same way each time. What the
  code can see of a file that vanished or changed between two calls is still covered,
  because the walk, \<^verbatim>\<open>os.Stat\<close> and \<^verbatim>\<open>os.Open\<close> are separate fields that need
  not agree with each other.
\<close>

subsection \<open>Values of the host\<close>

type_synonym path = string

text \<open>Go's \<^verbatim>\<open>error\<close> values; \<^verbatim>\<open>os.IsNotExist\<close> tells the first one apart.\<close>

datatype error = ErrNotExist | ErrPermission | ErrOther string

definition IsNotExist :: "error \<Rightarrow> bool" where
  "IsNotExist err = (err = ErrNotExist)"

text \<open>\<^verbatim>\<open>os.FileInfo\<close>: what \<^verbatim>\<open>Stat\<close> and the walk report of a file.\<close>

record FileInfo =
  fi_Name :: string
  fi_Size :: nat
  fi_Mode :: nat
  fi_ModTime :: int
  fi_IsDir :: bool

text \<open>
  \<^verbatim>\<open>FileMode.IsRegular\<close>: Go keeps the type of a file in bits of its mode
  (\<^verbatim>\<open>ModeDir\<close> 31, \<^verbatim>\<open>ModeSymlink\<close> 27, \<^verbatim>\<open>ModeDevice\<close> 26,
  \<^verbatim>\<open>ModeNamedPipe\<close> 25, \<^verbatim>\<open>ModeSocket\<close> 24, \<^verbatim>\<open>ModeCharDevice\<close> 21,
  \<^verbatim>\<open>ModeIrregular\<close> 19), and a file is regular when none of them is set. The
  package never asks for it: it reads \<^verbatim>\<open>IsDir\<close> only.
\<close>

definition IsRegular :: "FileInfo \<Rightarrow> bool" where
  "IsRegular fi =
     (\<not> bit (fi_Mode fi) 31 \<and> \<not> bit (fi_Mode fi) 27 \<and> \<not> bit (fi_Mode fi) 26
      \<and> \<not> bit (fi_Mode fi) 25 \<and> \<not> bit (fi_Mode fi) 24 \<and> \<not> bit (fi_Mode fi) 21
      \<and> \<not> bit (fi_Mode fi) 19)"

datatype compression = Store | Deflate

text \<open>\<^verbatim>\<open>zip.FileHeader\<close>, the fields \<^verbatim>\<open>zip.FileInfoHeader\<close> fills.\<close>

record FileHeader =
  Name :: string
  Method :: compression
  UncompressedSize64 :: nat
  Modified :: int
  Mode :: nat

text \<open>
  \<^verbatim>\<open>zip.FileInfoHeader\<close>: the header of a file's metadata, with the method left
  at its zero value \<^verbatim>\<open>Store\<close> and a slash after a directory's name. Go's
  implementation returns no error.
\<close>

definition FileInfoHeader :: "FileInfo \<Rightarrow> error + FileHeader" where
  "FileInfoHeader fi =
     Inr \<lparr>Name = (if fi_IsDir fi then fi_Name fi @ ''/'' else fi_Name fi),
          Method = Store,
          UncompressedSize64 = fi_Size fi,
          Modified = fi_ModTime fi,
          Mode = fi_Mode fi\<rparr>"

text \<open>
  An open \<^verbatim>\<open>*os.File\<close>: what \<^verbatim>\<open>file.Stat()\<close> returns, what
  \<^verbatim>\<open>io.Copy(writer, file)\<close> does (the bytes that reached the entry and the error,
  if any, of reading or writing), and what \<^verbatim>\<open>file.Close()\<close> returns.
\<close>

record File =
  f_Stat :: "error + FileInfo"
  f_Copy :: "string \<times> error option"
  f_Close :: "error option"

text \<open>
  One call of the function given to \<^verbatim>\<open>filepath.Walk\<close>: with the metadata of
  the path (from \<^verbatim>\<open>Lstat\<close>) and no error, or with an error (and the metadata
  when the path is a directory that could not be read).
\<close>

datatype visit =
  Visit_ok path FileInfo
  | Visit_err path "FileInfo option" error

text \<open>
  An entry of the archive: its header, the file its bytes were read from, its bytes.
  The zip format keeps no record of the file an entry was read from; \<open>src\<close> is
  kept here to say where an entry comes from.
\<close>

record entry =
  hdr :: FileHeader
  src :: path
  data :: string

record host =
  os_Create :: "path \<Rightarrow> error option"
  fp_Abs :: "string \<Rightarrow> error + path"
  os_Stat :: "path \<Rightarrow> error + FileInfo"
  fp_Dir :: "path \<Rightarrow> path"
  fp_Base :: "path \<Rightarrow> string"
  fp_Rel :: "path \<Rightarrow> path \<Rightarrow> error + string"
  fp_ToSlash :: "string \<Rightarrow> string"
  fp_Walk :: "path \<Rightarrow> visit list"
  os_Open :: "path \<Rightarrow> error + File"
  zw_CreateHeader :: "FileHeader \<Rightarrow> error option"
  zw_Close :: "entry list \<Rightarrow> error option"
  zf_Close :: "error option"

text \<open>
  \<open>fp_Walk h root\<close> lists the calls \<^verbatim>\<open>filepath.Walk(root, fn)\<close> makes to a
  function that returns nil each time, in order (the root first, then each directory's
  children in lexical order). \<open>zw_CreateHeader\<close> is the failure, if any, of
  \<^verbatim>\<open>zipWriter.CreateHeader\<close>; an entry is recorded when it returns a writer.
\<close>

subsection \<open>What the package prints and closes\<close>

text \<open>The lines the package prints, one constructor for each \<^verbatim>\<open>fmt.Printf\<close>.\<close>

datatype msg =
  Warn_abs string error
  | Warn_stat string error
  | Warn_access path error
  | Skipping_directory path
  | Warn_not_exist path
  | Warn_not_file path
  | Err_opening path error
  | Err_closing_file path error
  | Err_file_info path error
  | Err_zip_header path error
  | Added string
  | Err_closing_zip error
  | Err_creating_zip error

text \<open>
  The effects of a job, in order: a line printed, the call of \<^verbatim>\<open>zipWriter.Close()\<close>
  and the call of \<^verbatim>\<open>zipFile.Close()\<close>, each with what it returned.
\<close>

datatype event =
  Printf msg
  | ZipWriter_Close "error option"
  | ZipFile_Close "error option"

subsection \<open>Options\<close>

text \<open>
  The channel \<^verbatim>\<open>Abort\<close> is open when \<^verbatim>\<open>loadOptions\<close> makes it; an option
  function may put another one in its place.
\<close>

datatype chan = Chan_open | Chan_closed

record ZipOptions =
  InputPaths :: "string list"
  OutputPath :: string
  CompressionLevel :: int
  IncludeOriginal :: bool
  Abort :: chan

type_synonym OptionFn = "ZipOptions \<Rightarrow> ZipOptions"

definition DefaultOutputPath :: string where
  "DefaultOutputPath = ''output.zip''"

definition WithPaths :: "string list \<Rightarrow> string \<Rightarrow> OptionFn" where
  "WithPaths inputPaths outputPath = (\<lambda>opt. opt\<lparr>InputPaths := inputPaths, OutputPath := outputPath\<rparr>)"

definition loadOptions :: "OptionFn list \<Rightarrow> ZipOptions" where
  "loadOptions opts =
     foldl (\<lambda>opt fn. fn opt)
       \<lparr>InputPaths = [], OutputPath = DefaultOutputPath, CompressionLevel = 0,
        IncludeOriginal = False, Abort = Chan_open\<rparr>
       opts"

subsection \<open>The state of a job\<close>

text \<open>
  \<open>processed\<close> is the map \<^verbatim>\<open>processed\<close> of \<^verbatim>\<open>Zip\<close> (a key that is absent
  reads as false), \<open>entries\<close> the entries of the zip writer in the order written,
  \<open>effects\<close> what the job has printed and closed so far.
\<close>

record zip_state =
  processed :: "string \<Rightarrow> bool"
  entries :: "entry list"
  effects :: "event list"

definition new_state :: zip_state where
  "new_state = \<lparr>processed = (\<lambda>_. False), entries = [], effects = []\<rparr>"

definition emit :: "event \<Rightarrow> zip_state \<Rightarrow> zip_state" where
  "emit ev st = st\<lparr>effects := effects st @ [ev]\<rparr>"

subsection \<open>addFileToZip\<close>

text \<open>
  The body of \<^verbatim>\<open>addFileToZip\<close> after the file is open, up to its return; the
  deferred \<^verbatim>\<open>file.Close()\<close> runs after it.
\<close>

definition addOpenFile :: "host \<Rightarrow> zip_state \<Rightarrow> File \<Rightarrow> path \<Rightarrow> string \<Rightarrow> error option \<times> zip_state" where
  "addOpenFile h st file filePath zipPath =
     (case f_Stat file of
        Inl err \<Rightarrow> (Some err, emit (Printf (Err_file_info filePath err)) st)
      | Inr info \<Rightarrow>
          (case FileInfoHeader info of
             Inl err \<Rightarrow> (Some err, emit (Printf (Err_zip_header filePath err)) st)
           | Inr header0 \<Rightarrow>
               (let header = header0\<lparr>Method := Deflate, Name := zipPath\<rparr> in
                case zw_CreateHeader h header of
                  Some err \<Rightarrow> (Some err, st)
                | None \<Rightarrow>
                    (let st1 = st\<lparr>entries := entries st @
                           [\<lparr>hdr = header, src = filePath, data = fst (f_Copy file)\<rparr>]\<rparr> in
                     case snd (f_Copy file) of
                       Some err \<Rightarrow> (Some err, st1)
                     | None \<Rightarrow> (None, emit (Printf (Added zipPath)) st1)))))"

definition addFileToZip :: "host \<Rightarrow> zip_state \<Rightarrow> path \<Rightarrow> string \<Rightarrow> error option \<times> zip_state" where
  "addFileToZip h st filePath zipPath =
     (if (case os_Stat h filePath of Inl err \<Rightarrow> IsNotExist err | Inr _ \<Rightarrow> False)
      then (None, emit (Printf (Warn_not_exist filePath)) st)
      else if (case os_Stat h filePath of Inl err \<Rightarrow> True | Inr info \<Rightarrow> fi_IsDir info)
      then (None, emit (Printf (Warn_not_file filePath)) st)
      else
        (case os_Open h filePath of
           Inl err \<Rightarrow> (Some err, emit (Printf (Err_opening filePath err)) st)
         | Inr file \<Rightarrow>
             (case addOpenFile h st file filePath zipPath of
                (ret, st') \<Rightarrow>
                  (ret, case f_Close file of
                          Some err \<Rightarrow> emit (Printf (Err_closing_file filePath err)) st'
                        | None \<Rightarrow> st'))))"

subsection \<open>Zip\<close>

text \<open>The function \<^verbatim>\<open>Zip\<close> gives to \<^verbatim>\<open>filepath.Walk\<close>.\<close>

fun walkFn :: "host \<Rightarrow> path \<Rightarrow> zip_state \<Rightarrow> visit \<Rightarrow> error option \<times> zip_state" where
  "walkFn h baseDir st (Visit_err p info err) =
     (Some err, emit (Printf (Warn_access p err)) st)"
| "walkFn h baseDir st (Visit_ok p info) =
     (if fi_IsDir info then (None, emit (Printf (Skipping_directory p)) st)
      else
        (case fp_Rel h baseDir p of
           Inl err \<Rightarrow> (Some err, st)
         | Inr relPath \<Rightarrow>
             (let relPathFwd = fp_ToSlash h relPath in
              if processed st relPathFwd then (None, st)
              else addFileToZip h (st\<lparr>processed := (processed st)(relPathFwd := True)\<rparr>)
                     p relPathFwd)))"

text \<open>
  \<^verbatim>\<open>filepath.Walk\<close> with that function: it calls the function on each visit in
  turn and stops with the first error the function returns (the function never
  returns \<^verbatim>\<open>SkipDir\<close>).
\<close>

fun Walk :: "host \<Rightarrow> path \<Rightarrow> zip_state \<Rightarrow> visit list \<Rightarrow> error option \<times> zip_state" where
  "Walk h baseDir st [] = (None, st)"
| "Walk h baseDir st (v # vs) =
     (case walkFn h baseDir st v of
        (Some err, st') \<Rightarrow> (Some err, st')
      | (None, st') \<Rightarrow> Walk h baseDir st' vs)"

text \<open>The loop of \<^verbatim>\<open>Zip\<close> over \<^verbatim>\<open>opt.InputPaths\<close>, up to its return.\<close>

fun zip_inputs :: "host \<Rightarrow> zip_state \<Rightarrow> string list \<Rightarrow> error option \<times> zip_state" where
  "zip_inputs h st [] = (None, st)"
| "zip_inputs h st (source # rest) =
     (case fp_Abs h source of
        Inl err \<Rightarrow> zip_inputs h (emit (Printf (Warn_abs source err)) st) rest
      | Inr absSource \<Rightarrow>
          (case os_Stat h absSource of
             Inl err \<Rightarrow> zip_inputs h (emit (Printf (Warn_stat source err)) st) rest
           | Inr info \<Rightarrow>
               (if fi_IsDir info then
                  (let baseDir = fp_Dir h absSource in
                   case Walk h baseDir st (fp_Walk h absSource) of
                     (Some err, st') \<Rightarrow> (Some err, st')
                   | (None, st') \<Rightarrow> zip_inputs h st' rest)
                else
                  (let relPath = fp_Base h absSource;
                       relPathFwd = fp_ToSlash h relPath in
                   if \<not> processed st relPathFwd then
                     (case addFileToZip h st absSource relPathFwd of
                        (Some err, st') \<Rightarrow> (Some err, st')
                      | (None, st') \<Rightarrow>
                          zip_inputs h (st'\<lparr>processed := (processed st')(relPathFwd := True)\<rparr>) rest)
                   else zip_inputs h st rest))))"

text \<open>The two deferred functions of \<^verbatim>\<open>Zip\<close>; the one deferred last runs first.\<close>

definition deferred_zipWriter_Close :: "host \<Rightarrow> zip_state \<Rightarrow> zip_state" where
  "deferred_zipWriter_Close h st =
     (case zw_Close h (entries st) of
        Some err \<Rightarrow> emit (Printf (Err_closing_zip err)) (emit (ZipWriter_Close (Some err)) st)
      | None \<Rightarrow> emit (ZipWriter_Close None) st)"

definition deferred_zipFile_Close :: "host \<Rightarrow> zip_state \<Rightarrow> zip_state" where
  "deferred_zipFile_Close h st =
     (case zf_Close h of
        Some err \<Rightarrow> emit (Printf (Err_creating_zip err)) (emit (ZipFile_Close (Some err)) st)
      | None \<Rightarrow> emit (ZipFile_Close None) st)"

text \<open>
  \<^verbatim>\<open>Zip\<close>: the value it returns, and the state of the job when it returns. When
  the output file cannot be created there is no zip writer and nothing is deferred.
\<close>

definition Zip :: "host \<Rightarrow> OptionFn list \<Rightarrow> error option \<times> zip_state" where
  "Zip h opts =
     (let opt = loadOptions opts in
      case os_Create h (OutputPath opt) of
        Some err \<Rightarrow> (Some err, new_state)
      | None \<Rightarrow>
          (case zip_inputs h new_state (InputPaths opt) of
             (ret, st) \<Rightarrow> (ret, deferred_zipFile_Close h (deferred_zipWriter_Close h st))))"

section \<open>The files a job discovers\<close>

text \<open>
  The archive key of an entry is the name in its header. The files a job discovers,
  each with its archive key, in the order of the traversal of the specification: for
  each input that resolves, a directory's descendants that are not directories, under
  their paths relative to the directory's parent, or the file itself, under its base name.
  \<open>found_in_walk\<close> and \<open>discovered\<close> follow the words of the specification, not
  the code: they leave out the archive, the set of seen keys and every error, and the
  properties below compare what \<^verbatim>\<open>Zip\<close> writes with them.
\<close>

definition key :: "entry \<Rightarrow> string" where
  "key e = Name (hdr e)"

fun found_in_walk :: "host \<Rightarrow> path \<Rightarrow> visit list \<Rightarrow> (path \<times> string) list" where
  "found_in_walk h baseDir [] = []"
| "found_in_walk h baseDir (Visit_err p info err # vs) = found_in_walk h baseDir vs"
| "found_in_walk h baseDir (Visit_ok p info # vs) =
     (if fi_IsDir info then found_in_walk h baseDir vs
      else
        (case fp_Rel h baseDir p of
           Inl err \<Rightarrow> found_in_walk h baseDir vs
         | Inr relPath \<Rightarrow> (p, fp_ToSlash h relPath) # found_in_walk h baseDir vs))"

fun discovered :: "host \<Rightarrow> string list \<Rightarrow> (path \<times> string) list" where
  "discovered h [] = []"
| "discovered h (source # rest) =
     (case fp_Abs h source of
        Inl err \<Rightarrow> discovered h rest
      | Inr absSource \<Rightarrow>
          (case os_Stat h absSource of
             Inl err \<Rightarrow> discovered h rest
           | Inr info \<Rightarrow>
               if fi_IsDir info
               then found_in_walk h (fp_Dir h absSource) (fp_Walk h absSource) @ discovered h rest
               else (absSource, fp_ToSlash h (fp_Base h absSource)) # discovered h rest))"

text \<open>The first file of a list of discovered files that has a given key.\<close>

fun first_with_key :: "string \<Rightarrow> (path \<times> string) list \<Rightarrow> path option" where
  "first_with_key k [] = None"
| "first_with_key k ((p, k') # ds) = (if k' = k then Some p else first_with_key k ds)"

text \<open>
  The check \<^verbatim>\<open>addFileToZip\<close> makes before it opens a path: \<^verbatim>\<open>os.Stat\<close>
  finds it and it is not a directory.
\<close>

definition is_file :: "host \<Rightarrow> path \<Rightarrow> bool" where
  "is_file h p = (case os_Stat h p of Inl err \<Rightarrow> False | Inr info \<Rightarrow> \<not> fi_IsDir info)"

text \<open>The bytes \<^verbatim>\<open>io.Copy\<close> reads from a path, when the path can be opened.\<close>

definition content :: "host \<Rightarrow> path \<Rightarrow> string option" where
  "content h p = (case os_Open h p of Inl err \<Rightarrow> None | Inr file \<Rightarrow> Some (fst (f_Copy file)))"


section \<open>Invariants of a job\<close>

text \<open>
  An entry is made by \<^verbatim>\<open>addFileToZip\<close> when its source passed the check before
  opening, its method is deflate and its bytes are those read from its source.
  A state extends another when it has the same entries and then new ones, each made
  by \<^verbatim>\<open>addFileToZip\<close> under a key the other state had not seen, and has seen
  every key the other had. Two states hold the same archive when they differ in
  their effects at most. In a state where the first file wins, no two entries have
  the same key and each entry comes from the first discovered file with its key.
  The last invariant relates a state to the files discovered so far: the keys seen
  are the keys discovered, and the first file with a key has its entry if it passes
  the check before opening.
\<close>

definition made :: "host \<Rightarrow> entry \<Rightarrow> bool" where
  "made h e = (is_file h (src e) \<and> Method (hdr e) = Deflate \<and> content h (src e) = Some (data e))"

definition extends :: "host \<Rightarrow> zip_state \<Rightarrow> zip_state \<Rightarrow> bool" where
  "extends h st st' =
     ((\<exists>new. entries st' = entries st @ new
          \<and> (\<forall>e \<in> set new. made h e \<and> \<not> processed st (key e)))
      \<and> (\<forall>k. processed st k \<longrightarrow> processed st' k))"


definition first_wins :: "(path \<times> string) list \<Rightarrow> zip_state \<Rightarrow> bool" where
  "first_wins ds st =
     (distinct (map key (entries st))
      \<and> (\<forall>e \<in> set (entries st). first_with_key (key e) ds = Some (src e)))"

definition seen_inv :: "host \<Rightarrow> (path \<times> string) list \<Rightarrow> zip_state \<Rightarrow> bool" where
  "seen_inv h ds st =
     (first_wins ds st
      \<and> (\<forall>k. processed st k \<longleftrightarrow> k \<in> snd ` set ds)
      \<and> (\<forall>p k. first_with_key k ds = Some p \<and> is_file h p \<longrightarrow>
             (\<exists>e \<in> set (entries st). src e = p \<and> key e = k)))"

section \<open>A Unix host\<close>

text \<open>
  The hosts of the examples below are Unix hosts over a small file system. The path
  functions follow the documentation of Go's \<^verbatim>\<open>path/filepath\<close> for Unix, where
  the separator is the slash, on the rooted paths \<^verbatim>\<open>Zip\<close> passes them.
\<close>

subsection \<open>path/filepath\<close>

text \<open>The elements of a path: what stands between its slashes, empty elements left out.\<close>

fun elements :: "string \<Rightarrow> string \<Rightarrow> string list" where
  "elements cur [] = (if cur = [] then [] else [rev cur])"
| "elements cur (c # cs) =
     (if c = CHR ''/'' then (if cur = [] then elements [] cs else rev cur # elements [] cs)
      else elements (c # cur) cs)"

fun join :: "string list \<Rightarrow> string" where
  "join [] = []"
| "join [x] = x"
| "join (x # y # ys) = x @ CHR ''/'' # join (y # ys)"

text \<open>
  \<^verbatim>\<open>Clean\<close>: a dot element is dropped; a dot-dot element takes the element before
  it away, is dropped at the root, and is kept at the start of a path that is not
  rooted. \<open>kept\<close> holds the elements kept so far, the last one first.
\<close>

fun clean_elements :: "bool \<Rightarrow> string list \<Rightarrow> string list \<Rightarrow> string list" where
  "clean_elements rooted kept [] = rev kept"
| "clean_elements rooted kept (e # es) =
     (if e = ''.'' then clean_elements rooted kept es
      else if e = ''..'' then
        (case kept of
           [] \<Rightarrow> if rooted then clean_elements rooted [] es
                 else clean_elements rooted [''..''] es
         | k # ks \<Rightarrow> if k = ''..'' then clean_elements rooted (''..'' # kept) es
                     else clean_elements rooted ks es)
      else clean_elements rooted (e # kept) es)"

definition is_rooted :: "string \<Rightarrow> bool" where
  "is_rooted p = (case p of [] \<Rightarrow> False | c # _ \<Rightarrow> c = CHR ''/'')"

definition unix_Clean :: "string \<Rightarrow> string" where
  "unix_Clean p =
     (let s = join (clean_elements (is_rooted p) [] (elements [] p)) in
      if is_rooted p then CHR ''/'' # s else if s = [] then ''.'' else s)"

text \<open>\<^verbatim>\<open>Base\<close>: the last element; a dot for the empty path, a slash for a path of slashes.\<close>

definition unix_Base :: "string \<Rightarrow> string" where
  "unix_Base p =
     (case rev (elements [] p) of
        [] \<Rightarrow> if p = [] then ''.'' else ''/''
      | e # _ \<Rightarrow> e)"

text \<open>\<^verbatim>\<open>Dir\<close>: the path up to its last slash, cleaned.\<close>

definition unix_Dir :: "string \<Rightarrow> string" where
  "unix_Dir p = unix_Clean (rev (dropWhile (\<lambda>c. c \<noteq> CHR ''/'') (rev p)))"

fun drop_common :: "string list \<Rightarrow> string list \<Rightarrow> string list \<times> string list" where
  "drop_common (b # bs) (t # ts) = (if b = t then drop_common bs ts else (b # bs, t # ts))"
| "drop_common bs ts = (bs, ts)"

text \<open>
  \<^verbatim>\<open>Rel\<close>: both paths cleaned, their common leading elements dropped, one dot-dot
  for each element left of the base, then what is left of the target.
\<close>

definition unix_Rel :: "string \<Rightarrow> string \<Rightarrow> error + string" where
  "unix_Rel basepath targpath =
     (let base = unix_Clean basepath; targ = unix_Clean targpath in
      if targ = base then Inr ''.''
      else if is_rooted base \<noteq> is_rooted targ then Inl (ErrOther ''Rel: can't make relative'')
      else
        (case drop_common (elements [] (if base = ''.'' then [] else base)) (elements [] targ) of
           (bs, ts) \<Rightarrow>
             if bs \<noteq> [] \<and> hd bs = ''..'' then Inl (ErrOther ''Rel: can't make relative'')
             else Inr (join (replicate (length bs) ''..'' @ ts))))"

text \<open>\<^verbatim>\<open>Abs\<close> in the working directory \<open>cwd\<close>; \<^verbatim>\<open>ToSlash\<close> changes nothing on Unix.\<close>

definition unix_Abs :: "path \<Rightarrow> string \<Rightarrow> error + path" where
  "unix_Abs cwd p = Inr (if is_rooted p then unix_Clean p else unix_Clean (cwd @ CHR ''/'' # p))"

definition unix_ToSlash :: "string \<Rightarrow> string" where
  "unix_ToSlash p = p"

subsection \<open>A small file system\<close>

text \<open>
  What stands at a path: a directory, a directory that cannot be read, a regular file
  with its bytes, a regular file that may not be opened, a symbolic link to nothing,
  a socket (which cannot be opened as a file), or a named pipe with the bytes its
  writer sends.
\<close>

datatype node =
  Directory
  | Unreadable_directory
  | Regular string
  | Locked string
  | Dangling_link
  | Socket
  | Named_pipe string

definition info_of :: "path \<Rightarrow> bool \<Rightarrow> nat \<Rightarrow> FileInfo" where
  "info_of p isdir n =
     \<lparr>fi_Name = unix_Base p, fi_Size = n, fi_Mode = (if isdir then 493 else 420),
      fi_ModTime = 0, fi_IsDir = isdir\<rparr>"

text \<open>The metadata of a socket and of a named pipe, with the type bit of each in the mode.\<close>

definition socket_info :: "path \<Rightarrow> FileInfo" where
  "socket_info p =
     \<lparr>fi_Name = unix_Base p, fi_Size = 0, fi_Mode = 2 ^ 24 + 493, fi_ModTime = 0,
      fi_IsDir = False\<rparr>"

definition pipe_info :: "path \<Rightarrow> FileInfo" where
  "pipe_info p =
     \<lparr>fi_Name = unix_Base p, fi_Size = 0, fi_Mode = 2 ^ 25 + 420, fi_ModTime = 0,
      fi_IsDir = False\<rparr>"

text \<open>\<^verbatim>\<open>os.Lstat\<close> and \<^verbatim>\<open>os.Stat\<close>; only the second follows a link.\<close>

fun lstat_node :: "path \<Rightarrow> node \<Rightarrow> FileInfo" where
  "lstat_node p Directory = info_of p True 0"
| "lstat_node p Unreadable_directory = info_of p True 0"
| "lstat_node p (Regular bs) = info_of p False (length bs)"
| "lstat_node p (Locked bs) = info_of p False (length bs)"
| "lstat_node p Dangling_link = info_of p False 0"
| "lstat_node p Socket = socket_info p"
| "lstat_node p (Named_pipe bs) = pipe_info p"

fun stat_node :: "path \<Rightarrow> node \<Rightarrow> error + FileInfo" where
  "stat_node p Dangling_link = Inl ErrNotExist"
| "stat_node p n = Inr (lstat_node p n)"

fun open_node :: "path \<Rightarrow> node \<Rightarrow> error + File" where
  "open_node p (Regular bs) =
     Inr \<lparr>f_Stat = Inr (info_of p False (length bs)), f_Copy = (bs, None), f_Close = None\<rparr>"
| "open_node p (Locked bs) = Inl ErrPermission"
| "open_node p Unreadable_directory = Inl ErrPermission"
| "open_node p Directory =
     Inr \<lparr>f_Stat = Inr (info_of p True 0), f_Copy = ([], Some (ErrOther ''is a directory'')),
          f_Close = None\<rparr>"
| "open_node p Dangling_link = Inl ErrNotExist"
| "open_node p Socket = Inl (ErrOther ''no such device or address'')"
| "open_node p (Named_pipe bs) =
     Inr \<lparr>f_Stat = Inr (pipe_info p), f_Copy = (bs, None), f_Close = None\<rparr>"

fun visit_node :: "path \<Rightarrow> node \<Rightarrow> visit" where
  "visit_node p Unreadable_directory = Visit_err p (Some (info_of p True 0)) ErrPermission"
| "visit_node p n = Visit_ok p (lstat_node p n)"

text \<open>
  A file system is the list of its paths, each with its node, in the order a walk
  meets them. The walk of a root visits the root and the paths below it.
\<close>

type_synonym filesystem = "(path \<times> node) list"

definition below :: "path \<Rightarrow> path \<Rightarrow> bool" where
  "below root p = (p = root \<or> take (Suc (length root)) p = root @ ''/'')"

definition unix_host :: "path \<Rightarrow> filesystem \<Rightarrow> host" where
  "unix_host cwd fs =
     \<lparr>os_Create = (\<lambda>p. None),
      fp_Abs = unix_Abs cwd,
      os_Stat = (\<lambda>p. case map_of fs p of None \<Rightarrow> Inl ErrNotExist | Some n \<Rightarrow> stat_node p n),
      fp_Dir = unix_Dir,
      fp_Base = unix_Base,
      fp_Rel = unix_Rel,
      fp_ToSlash = unix_ToSlash,
      fp_Walk = (\<lambda>root. map (\<lambda>(p, n). visit_node p n) (filter (\<lambda>(p, n). below root p) fs)),
      os_Open = (\<lambda>p. case map_of fs p of None \<Rightarrow> Inl ErrNotExist | Some n \<Rightarrow> open_node p n),
      zw_CreateHeader = (\<lambda>fh. None),
      zw_Close = (\<lambda>es. None),
      zf_Close = None\<rparr>"

text \<open>
  The project of the specification: \<^verbatim>\<open>proj/\<close> holds \<^verbatim>\<open>a.txt\<close> and
  \<^verbatim>\<open>sub/b.txt\<close>; beside it stand a file \<^verbatim>\<open>notes/a.txt\<close> and nothing else.
\<close>

definition proj_fs :: filesystem where
  "proj_fs =
     [(''/w/proj'', Directory),
      (''/w/proj/a.txt'', Regular ''hello''),
      (''/w/proj/sub'', Directory),
      (''/w/proj/sub/b.txt'', Regular ''world''),
      (''/w/notes'', Directory),
      (''/w/notes/a.txt'', Regular ''memo'')]"

definition proj_host :: host where
  "proj_host = unix_host ''/w'' proj_fs"

text \<open>
  A vault with a link to nothing, a file that may not be opened and a plain file.
\<close>

definition vault_fs :: filesystem where
  "vault_fs =
     [(''/w/vault'', Directory),
      (''/w/vault/gone'', Dangling_link),
      (''/w/vault/key'', Locked ''secret''),
      (''/w/vault/ok.txt'', Regular ''fine'')]"

definition vault_host :: host where
  "vault_host = unix_host ''/w'' vault_fs"

text \<open>
  Two copies of a project, \<^verbatim>\<open>old/proj\<close> and \<^verbatim>\<open>new/proj\<close>: in the old one
  \<^verbatim>\<open>cfg\<close> is a link to nothing, in the new one it is a file; both hold a file
  \<^verbatim>\<open>x.txt\<close>.
\<close>

definition copies_fs :: filesystem where
  "copies_fs =
     [(''/w/old/proj'', Directory),
      (''/w/old/proj/cfg'', Dangling_link),
      (''/w/old/proj/x.txt'', Regular ''old''),
      (''/w/new/proj'', Directory),
      (''/w/new/proj/cfg'', Regular ''settings''),
      (''/w/new/proj/x.txt'', Regular ''new'')]"

definition copies_host :: host where
  "copies_host = unix_host ''/w'' copies_fs"

text \<open>
  The project on a disk that is full, so that the zip writer cannot be closed; the
  vault on a host where neither close succeeds; a site with a directory that cannot
  be read, beside a file.
\<close>

definition full_disk_host :: host where
  "full_disk_host = proj_host\<lparr>zw_Close := \<lambda>es. Some (ErrOther ''no space left on device'')\<rparr>"

definition failing_vault_host :: host where
  "failing_vault_host =
     vault_host\<lparr>zw_Close := \<lambda>es. Some (ErrOther ''no space left on device''),
                zf_Close := Some (ErrOther ''input/output error'')\<rparr>"

definition site_fs :: filesystem where
  "site_fs =
     [(''/w/site'', Directory),
      (''/w/site/index.html'', Regular ''<html>''),
      (''/w/site/private'', Unreadable_directory),
      (''/w/site/z.txt'', Regular ''z''),
      (''/w/more.txt'', Regular ''more'')]"

definition site_host :: host where
  "site_host = unix_host ''/w'' site_fs"

text \<open>
  The runtime directory of a service: a socket, a named pipe whose writer sends four
  bytes, and a file.
\<close>

definition run_fs :: filesystem where
  "run_fs =
     [(''/w/run'', Directory),
      (''/w/run/app.sock'', Socket),
      (''/w/run/events'', Named_pipe ''ping''),
      (''/w/run/pid'', Regular ''4711'')]"

definition run_host :: host where
  "run_host = unix_host ''/w'' run_fs"


section \<open>Properties\<close>

subsection \<open>Basic facts\<close>

lemma processed_emit [simp]: "processed (emit ev st) = processed st"
  by (simp add: emit_def)

lemma entries_emit [simp]: "entries (emit ev st) = entries st"
  by (simp add: emit_def)

lemma effects_emit [simp]: "effects (emit ev st) = effects st @ [ev]"
  by (simp add: emit_def)

lemma first_with_key_append:
  "first_with_key k (ds @ ds') =
     (case first_with_key k ds of Some p \<Rightarrow> Some p | None \<Rightarrow> first_with_key k ds')"
  by (induction ds) auto

lemma first_with_key_None: "first_with_key k ds = None \<longleftrightarrow> k \<notin> snd ` set ds"
  by (induction ds) force+

lemma first_wins_append: "first_wins ds st \<Longrightarrow> first_wins (ds @ ds') st"
  by (simp add: first_wins_def first_with_key_append)

lemma found_in_walk_append:
  "found_in_walk h b (vs @ ws) = found_in_walk h b vs @ found_in_walk h b ws"
  by (induction h b vs rule: found_in_walk.induct) (auto split: sum.splits)

lemma addOpenFile_processed:
  "addOpenFile h st file p k = (r, st') \<Longrightarrow> processed st' = processed st"
  by (auto simp: addOpenFile_def Let_def FileInfoHeader_def split: sum.splits option.splits)

lemma addOpenFile_entries:
  assumes "addOpenFile h st file p k = (r, st')"
  shows "entries st' = entries st \<and> r \<noteq> None
         \<or> (\<exists>e. entries st' = entries st @ [e] \<and> key e = k \<and> src e = p
                \<and> Method (hdr e) = Deflate \<and> data e = fst (f_Copy file))"
proof (cases "f_Stat file")
  case (Inl err)
  with assms show ?thesis by (auto simp: addOpenFile_def)
next
  case (Inr info)
  let ?header = "\<lparr>Name = k, Method = Deflate, UncompressedSize64 = fi_Size info,
                   Modified = fi_ModTime info, Mode = fi_Mode info\<rparr>"
  let ?e = "\<lparr>hdr = ?header, src = p, data = fst (f_Copy file)\<rparr>"
  show ?thesis
  proof (cases "zw_CreateHeader h ?header")
    case (Some err)
    with Inr have "addOpenFile h st file p k = (Some err, st)"
      by (simp add: addOpenFile_def FileInfoHeader_def)
    with assms show ?thesis by auto
  next
    case None
    with assms Inr have "entries st' = entries st @ [?e]"
      by (auto simp: addOpenFile_def FileInfoHeader_def Let_def split: option.splits)
    moreover have "key ?e = k" "src ?e = p" "Method (hdr ?e) = Deflate" "data ?e = fst (f_Copy file)"
      by (simp_all add: key_def)
    ultimately show ?thesis by blast
  qed
qed

lemma addFileToZip_processed:
  "addFileToZip h st p k = (r, st') \<Longrightarrow> processed st' = processed st"
  by (auto simp: addFileToZip_def dest: addOpenFile_processed
      split: if_splits sum.splits option.splits prod.splits)

lemma addFileToZip_not_file:
  assumes "addFileToZip h st p k = (r, st')" "\<not> is_file h p"
  shows "r = None \<and> entries st' = entries st"
  using assms
  by (auto simp: addFileToZip_def is_file_def split: if_splits sum.splits)

lemma addFileToZip_entries:
  assumes "addFileToZip h st p k = (r, st')"
  shows "entries st' = entries st \<and> (is_file h p \<longrightarrow> r \<noteq> None)
         \<or> (\<exists>e. entries st' = entries st @ [e] \<and> key e = k \<and> src e = p \<and> made h e)"
proof (cases "is_file h p")
  case False
  with assms show ?thesis by (auto dest: addFileToZip_not_file)
next
  case True
  show ?thesis
  proof (cases "os_Open h p")
    case (Inl err)
    with assms True show ?thesis
      by (auto simp: addFileToZip_def is_file_def split: if_splits sum.splits)
  next
    case (Inr f)
    obtain st1 where run: "addOpenFile h st f p k = (r, st1)" and st': "entries st' = entries st1"
      using assms True Inr
      by (auto simp: addFileToZip_def is_file_def split: if_splits sum.splits prod.splits option.splits)
    from addOpenFile_entries [OF run] show ?thesis
    proof
      assume "entries st1 = entries st \<and> r \<noteq> None"
      with st' show ?thesis by simp
    next
      assume "\<exists>e. entries st1 = entries st @ [e] \<and> key e = k \<and> src e = p
                \<and> Method (hdr e) = Deflate \<and> data e = fst (f_Copy f)"
      then obtain e where e: "entries st1 = entries st @ [e]" "key e = k" "src e = p"
        "Method (hdr e) = Deflate" "data e = fst (f_Copy f)" by blast
      with True Inr have "made h e" by (simp add: made_def content_def)
      with e st' show ?thesis by auto
    qed
  qed
qed

lemma first_wins_cong:
  "entries st' = entries st \<Longrightarrow> first_wins ds st' = first_wins ds st"
  by (simp add: first_wins_def)

lemma seen_inv_cong:
  "entries st' = entries st \<Longrightarrow> processed st' = processed st \<Longrightarrow>
   seen_inv h ds st' = seen_inv h ds st"
  by (simp add: seen_inv_def first_wins_def)

lemma first_wins_emit [simp]: "first_wins ds (emit ev st) = first_wins ds st"
  by (simp add: first_wins_def)

lemma seen_inv_emit [simp]: "seen_inv h ds (emit ev st) = seen_inv h ds st"
  by (simp add: seen_inv_def)

lemma seen_inv_first_wins: "seen_inv h ds st \<Longrightarrow> first_wins ds st"
  by (simp add: seen_inv_def)

lemma seen_inv_processed: "seen_inv h ds st \<Longrightarrow> processed st k \<longleftrightarrow> k \<in> snd ` set ds"
  unfolding seen_inv_def by blast

lemma seen_inv_fresh: "seen_inv h ds st \<Longrightarrow> \<not> processed st k \<Longrightarrow> first_with_key k ds = None"
  using seen_inv_processed [of h ds st k] first_with_key_None [of k ds] by blast

lemma seen_inv_entry_processed:
  assumes "seen_inv h ds st" "e \<in> set (entries st)"
  shows "processed st (key e)"
proof -
  from assms have "first_with_key (key e) ds = Some (src e)"
    by (simp add: seen_inv_def first_wins_def)
  then have "key e \<in> snd ` set ds"
    using first_with_key_None [of "key e" ds] by auto
  with assms(1) show ?thesis by (simp only: seen_inv_processed)
qed

lemma seen_inv_dup:
  assumes "seen_inv h ds st" "processed st k"
  shows "seen_inv h (ds @ [(p, k)]) st"
proof -
  from assms have mem: "k \<in> snd ` set ds" by (simp only: seen_inv_processed)
  then obtain p0 where p0: "first_with_key k ds = Some p0"
    using first_with_key_None [of k ds] by auto
  have fw: "first_with_key k' (ds @ [(p, k)]) = first_with_key k' ds" for k'
    using p0 by (cases "k' = k") (auto simp: first_with_key_append split: option.splits)
  from assms(1) mem show ?thesis
    unfolding seen_inv_def first_wins_def fw by auto
qed

lemma fresh_key_first_wins:
  assumes inv: "seen_inv h ds st" and fresh: "\<not> processed st k"
    and ent: "entries st' = entries st
              \<or> (\<exists>e. entries st' = entries st @ [e] \<and> key e = k \<and> src e = p)"
  shows "first_wins (ds @ [(p, k)]) st'"
proof -
  have none: "first_with_key k ds = None"
    using inv fresh by (rule seen_inv_fresh)
  have old: "first_wins (ds @ [(p, k)]) st"
    by (rule first_wins_append [OF seen_inv_first_wins [OF inv]])
  from ent show ?thesis
  proof
    assume "entries st' = entries st"
    with old first_wins_cong [of st' st] show ?thesis by simp
  next
    assume "\<exists>e. entries st' = entries st @ [e] \<and> key e = k \<and> src e = p"
    then obtain e where e: "entries st' = entries st @ [e]" "key e = k" "src e = p" by blast
    have "k \<notin> key ` set (entries st)"
      using seen_inv_entry_processed [OF inv] fresh by auto
    moreover have "first_with_key k (ds @ [(p, k)]) = Some p"
      using none by (simp add: first_with_key_append)
    ultimately show ?thesis
      using old e by (auto simp: first_wins_def)
  qed
qed

lemma fresh_key_seen_inv:
  assumes inv: "seen_inv h ds st" and fresh: "\<not> processed st k"
    and ent: "entries st' = entries st \<and> \<not> is_file h p
              \<or> (\<exists>e. entries st' = entries st @ [e] \<and> key e = k \<and> src e = p)"
    and proc: "processed st' = (processed st)(k := True)"
  shows "seen_inv h (ds @ [(p, k)]) st'"
proof -
  have none: "first_with_key k ds = None"
    using inv fresh by (rule seen_inv_fresh)
  have fw: "first_wins (ds @ [(p, k)]) st'"
    using fresh_key_first_wins [OF inv fresh] ent by blast
  have seen: "processed st' k' \<longleftrightarrow> k' \<in> snd ` set (ds @ [(p, k)])" for k'
    using seen_inv_processed [OF inv, of k'] proc by auto
  have sub: "set (entries st) \<subseteq> set (entries st')"
    using ent by auto
  have stored: "\<exists>e \<in> set (entries st'). src e = p' \<and> key e = k'"
    if a: "first_with_key k' (ds @ [(p, k)]) = Some p'" and b: "is_file h p'" for p' k'
  proof (cases "first_with_key k' ds")
    case (Some q)
    with a have "first_with_key k' ds = Some p'" by (simp add: first_with_key_append)
    with inv b obtain e where "e \<in> set (entries st)" "src e = p'" "key e = k'"
      unfolding seen_inv_def by blast
    with sub show ?thesis by blast
  next
    case None
    with a have "k' = k" "p' = p" by (auto simp: first_with_key_append split: if_splits)
    with b ent show ?thesis by auto
  qed
  from fw seen stored show ?thesis
    unfolding seen_inv_def by blast
qed

lemma walkFn_inv:
  assumes inv: "seen_inv h ds st" and run: "walkFn h b st v = (r, st')"
  shows "first_wins (ds @ found_in_walk h b [v]) st'
         \<and> (r = None \<longrightarrow> seen_inv h (ds @ found_in_walk h b [v]) st')"
proof (cases v)
  case (Visit_err p info err)
  with run inv show ?thesis
    by (auto dest: seen_inv_first_wins)
next
  case (Visit_ok p info)
  show ?thesis
  proof (cases "fi_IsDir info")
    case True
    with run inv Visit_ok show ?thesis
      by (auto dest: seen_inv_first_wins)
  next
    case notdir: False
    show ?thesis
    proof (cases "fp_Rel h b p")
      case (Inl err)
      with run inv Visit_ok notdir show ?thesis
        by (auto dest: seen_inv_first_wins)
    next
      case (Inr relPath)
      let ?k = "fp_ToSlash h relPath"
      have found: "found_in_walk h b [v] = [(p, ?k)]"
        using Visit_ok notdir Inr by simp
      show ?thesis
      proof (cases "processed st ?k")
        case True
        with run Visit_ok notdir Inr have "r = None" "st' = st" by (simp_all add: Let_def)
        with seen_inv_dup [OF inv True, of p] found show ?thesis
          by (auto dest: seen_inv_first_wins)
      next
        case False
        let ?st0 = "st\<lparr>processed := (processed st)(?k := True)\<rparr>"
        from run Visit_ok notdir Inr False
        have add: "addFileToZip h ?st0 p ?k = (r, st')" by (simp add: Let_def)
        have proc: "processed st' = (processed st)(?k := True)"
          using addFileToZip_processed [OF add] by simp
        from addFileToZip_entries [OF add]
        have ent: "entries st' = entries st \<and> (is_file h p \<longrightarrow> r \<noteq> None)
            \<or> (\<exists>e. entries st' = entries st @ [e] \<and> key e = ?k \<and> src e = p)"
          by auto
        then have a: "first_wins (ds @ [(p, ?k)]) st'"
          using fresh_key_first_wins [OF inv False, of st' p] by blast
        have b: "seen_inv h (ds @ [(p, ?k)]) st'" if "r = None"
          using fresh_key_seen_inv [OF inv False _ proc, of p] ent that by blast
        from a b found show ?thesis by simp
      qed
    qed
  qed
qed

lemma Walk_inv:
  assumes "seen_inv h ds st" "Walk h b st vs = (r, st')"
  shows "first_wins (ds @ found_in_walk h b vs) st'
         \<and> (r = None \<longrightarrow> seen_inv h (ds @ found_in_walk h b vs) st')"
  using assms
proof (induction vs arbitrary: ds st)
  case Nil
  then show ?case by (auto dest: seen_inv_first_wins)
next
  case (Cons v vs)
  obtain r1 st1 where step: "walkFn h b st v = (r1, st1)" by (cases "walkFn h b st v")
  note one = walkFn_inv [OF Cons.prems(1) step]
  have split: "found_in_walk h b (v # vs) = found_in_walk h b [v] @ found_in_walk h b vs"
    using found_in_walk_append [of h b "[v]" vs] by simp
  show ?case
  proof (cases r1)
    case (Some err)
    with Cons.prems(2) step have "r = Some err" "st' = st1" by simp_all
    with one show ?thesis
      unfolding split using first_wins_append [of "ds @ found_in_walk h b [v]" st1]
      by simp
  next
    case None
    with Cons.prems(2) step have rest: "Walk h b st1 vs = (r, st')" by simp
    from one None have "seen_inv h (ds @ found_in_walk h b [v]) st1" by simp
    from Cons.IH [OF this rest] show ?thesis unfolding split by simp
  qed
qed

lemma zip_inputs_inv:
  assumes "seen_inv h ds st" "zip_inputs h st inputs = (r, st')"
  shows "first_wins (ds @ discovered h inputs) st'
         \<and> (r = None \<longrightarrow> seen_inv h (ds @ discovered h inputs) st')"
  using assms
proof (induction inputs arbitrary: ds st)
  case Nil
  then show ?case by (auto dest: seen_inv_first_wins)
next
  case (Cons source rest)
  note inv = Cons.prems(1) and run = Cons.prems(2)
  show ?case
  proof (cases "fp_Abs h source")
    case (Inl err)
    with run have "zip_inputs h (emit (Printf (Warn_abs source err)) st) rest = (r, st')" by simp
    with Cons.IH [of ds "emit (Printf (Warn_abs source err)) st"] inv Inl show ?thesis by simp
  next
    case abs: (Inr a)
    show ?thesis
    proof (cases "os_Stat h a")
      case (Inl err)
      with run abs have "zip_inputs h (emit (Printf (Warn_stat source err)) st) rest = (r, st')"
        by simp
      with Cons.IH [of ds "emit (Printf (Warn_stat source err)) st"] inv abs Inl show ?thesis
        by simp
    next
      case stat: (Inr info)
      show ?thesis
      proof (cases "fi_IsDir info")
        case True
        let ?found = "found_in_walk h (fp_Dir h a) (fp_Walk h a)"
        have disc: "discovered h (source # rest) = ?found @ discovered h rest"
          using abs stat True by simp
        obtain r1 st1 where walk: "Walk h (fp_Dir h a) st (fp_Walk h a) = (r1, st1)"
          by (cases "Walk h (fp_Dir h a) st (fp_Walk h a)")
        note w = Walk_inv [OF inv walk]
        show ?thesis
        proof (cases r1)
          case (Some err)
          with run abs stat True walk have "r = Some err" "st' = st1" by (simp_all add: Let_def)
          with w first_wins_append [of "ds @ ?found" st1 "discovered h rest"] show ?thesis
            unfolding disc by simp
        next
          case None
          with run abs stat True walk have "zip_inputs h st1 rest = (r, st')"
            by (simp add: Let_def)
          with Cons.IH [of "ds @ ?found" st1] w None show ?thesis
            unfolding disc by simp
        qed
      next
        case False
        let ?k = "fp_ToSlash h (fp_Base h a)"
        have disc: "discovered h (source # rest) = [(a, ?k)] @ discovered h rest"
          using abs stat False by simp
        show ?thesis
        proof (cases "processed st ?k")
          case True
          with run abs stat False have "zip_inputs h st rest = (r, st')" by (simp add: Let_def)
          with Cons.IH [of "ds @ [(a, ?k)]" st] seen_inv_dup [OF inv True, of a] show ?thesis
            unfolding disc by simp
        next
          case fresh: False
          obtain r1 st1 where add: "addFileToZip h st a ?k = (r1, st1)"
            by (cases "addFileToZip h st a ?k")
          from addFileToZip_entries [OF add]
          have ent: "entries st1 = entries st \<and> (is_file h a \<longrightarrow> r1 \<noteq> None)
              \<or> (\<exists>e. entries st1 = entries st @ [e] \<and> key e = ?k \<and> src e = a)"
            by auto
          show ?thesis
          proof (cases r1)
            case (Some err)
            with run abs stat False fresh add have "r = Some err" "st' = st1"
              by (simp_all add: Let_def)
            moreover have "first_wins (ds @ [(a, ?k)]) st1"
              using fresh_key_first_wins [OF inv fresh, of st1 a] ent by blast
            ultimately show ?thesis
              using first_wins_append [of "ds @ [(a, ?k)]" st1 "discovered h rest"]
              unfolding disc by simp
          next
            case None
            let ?st2 = "st1\<lparr>processed := (processed st1)(?k := True)\<rparr>"
            from run abs stat False fresh add None
            have rest: "zip_inputs h ?st2 rest = (r, st')" by (simp add: Let_def)
            have proc: "processed ?st2 = (processed st)(?k := True)"
              using addFileToZip_processed [OF add] by simp
            have "seen_inv h (ds @ [(a, ?k)]) ?st2"
              using fresh_key_seen_inv [OF inv fresh _ proc, of a] ent None by auto
            from Cons.IH [OF this rest] show ?thesis
              unfolding disc by simp
          qed
        qed
      qed
    qed
  qed
qed

lemma seen_inv_new_state: "seen_inv h [] new_state"
  by (simp add: seen_inv_def first_wins_def new_state_def)

subsection \<open>Entries are only added, and only under keys not seen before\<close>

lemma extends_refl: "extends h st st"
  by (simp add: extends_def)

lemma extends_trans:
  assumes "extends h st1 st2" "extends h st2 st3"
  shows "extends h st1 st3"
proof -
  from assms(1) obtain new1 where n1: "entries st2 = entries st1 @ new1"
    "\<forall>e \<in> set new1. made h e \<and> \<not> processed st1 (key e)"
    and p1: "\<forall>k. processed st1 k \<longrightarrow> processed st2 k"
    unfolding extends_def by blast
  from assms(2) obtain new2 where n2: "entries st3 = entries st2 @ new2"
    "\<forall>e \<in> set new2. made h e \<and> \<not> processed st2 (key e)"
    and p2: "\<forall>k. processed st2 k \<longrightarrow> processed st3 k"
    unfolding extends_def by blast
  have "entries st3 = entries st1 @ (new1 @ new2)" using n1 n2 by simp
  moreover have "\<forall>e \<in> set (new1 @ new2). made h e \<and> \<not> processed st1 (key e)"
    using n1 n2 p1 by auto
  moreover have "\<forall>k. processed st1 k \<longrightarrow> processed st3 k" using p1 p2 by blast
  ultimately show ?thesis unfolding extends_def by blast
qed

lemma extends_emit: "extends h st (emit ev st)"
  by (simp add: extends_def)

lemma extends_mark:
  assumes "entries st' = entries st" "processed st' = (processed st)(k := True)"
  shows "extends h st st'"
  using assms by (simp add: extends_def)

lemma addFileToZip_extends:
  assumes add: "addFileToZip h st0 p k = (r, st')"
    and st0: "entries st0 = entries st" "\<forall>k'. processed st k' \<longrightarrow> processed st0 k'"
    and fresh: "\<not> processed st k"
  shows "extends h st st'"
proof -
  have proc: "processed st' = processed st0" by (rule addFileToZip_processed [OF add])
  from addFileToZip_entries [OF add]
  have "entries st' = entries st @ [] \<or> (\<exists>e. entries st' = entries st @ [e] \<and> key e = k \<and> made h e)"
    using st0 by auto
  then show ?thesis
  proof
    assume "entries st' = entries st @ []"
    then show ?thesis using proc st0 unfolding extends_def by auto
  next
    assume "\<exists>e. entries st' = entries st @ [e] \<and> key e = k \<and> made h e"
    then obtain e where e: "entries st' = entries st @ [e]" "key e = k" "made h e" by blast
    with fresh have "\<forall>x \<in> set [e]. made h x \<and> \<not> processed st (key x)" by simp
    with e(1) have "\<exists>new. entries st' = entries st @ new
        \<and> (\<forall>x \<in> set new. made h x \<and> \<not> processed st (key x))" by blast
    moreover have "\<forall>k'. processed st k' \<longrightarrow> processed st' k'" using proc st0 by simp
    ultimately show ?thesis unfolding extends_def by simp
  qed
qed

lemma walkFn_extends: "walkFn h b st v = (r, st') \<Longrightarrow> extends h st st'"
proof (cases v)
  case (Visit_err p info err)
  assume "walkFn h b st v = (r, st')"
  with Visit_err show ?thesis by (auto simp: extends_emit)
next
  case (Visit_ok p info)
  assume run: "walkFn h b st v = (r, st')"
  show ?thesis
  proof (cases "fi_IsDir info")
    case True
    with run Visit_ok show ?thesis by (auto simp: extends_emit)
  next
    case notdir: False
    show ?thesis
    proof (cases "fp_Rel h b p")
      case (Inl err)
      with run Visit_ok notdir show ?thesis by (auto simp: extends_refl)
    next
      case (Inr relPath)
      show ?thesis
      proof (cases "processed st (fp_ToSlash h relPath)")
        case True
        with run Visit_ok notdir Inr show ?thesis by (auto simp: extends_refl Let_def)
      next
        case False
        with run Visit_ok notdir Inr
        have "addFileToZip h (st\<lparr>processed := (processed st)(fp_ToSlash h relPath := True)\<rparr>)
                p (fp_ToSlash h relPath) = (r, st')" by (simp add: Let_def)
        from addFileToZip_extends [OF this _ _ False] show ?thesis by simp
      qed
    qed
  qed
qed

lemma Walk_extends: "Walk h b st vs = (r, st') \<Longrightarrow> extends h st st'"
proof (induction vs arbitrary: st)
  case Nil
  then show ?case by (simp add: extends_refl)
next
  case (Cons v vs)
  obtain r1 st1 where step: "walkFn h b st v = (r1, st1)" by (cases "walkFn h b st v")
  note one = walkFn_extends [OF step]
  show ?case
  proof (cases r1)
    case (Some err)
    with Cons.prems step one show ?thesis by simp
  next
    case None
    with Cons.prems step have "Walk h b st1 vs = (r, st')" by simp
    from extends_trans [OF one Cons.IH [OF this]] show ?thesis .
  qed
qed

lemma zip_inputs_extends: "zip_inputs h st inputs = (r, st') \<Longrightarrow> extends h st st'"
proof (induction inputs arbitrary: st)
  case Nil
  then show ?case by (simp add: extends_refl)
next
  case (Cons source rest)
  note run = Cons.prems
  show ?case
  proof (cases "fp_Abs h source")
    case (Inl err)
    with run have "zip_inputs h (emit (Printf (Warn_abs source err)) st) rest = (r, st')" by simp
    from extends_trans [OF extends_emit Cons.IH [OF this]] show ?thesis .
  next
    case abs: (Inr a)
    show ?thesis
    proof (cases "os_Stat h a")
      case (Inl err)
      with run abs have "zip_inputs h (emit (Printf (Warn_stat source err)) st) rest = (r, st')"
        by simp
      from extends_trans [OF extends_emit Cons.IH [OF this]] show ?thesis .
    next
      case stat: (Inr info)
      show ?thesis
      proof (cases "fi_IsDir info")
        case True
        obtain r1 st1 where walk: "Walk h (fp_Dir h a) st (fp_Walk h a) = (r1, st1)"
          by (cases "Walk h (fp_Dir h a) st (fp_Walk h a)")
        note w = Walk_extends [OF walk]
        show ?thesis
        proof (cases r1)
          case (Some err)
          with run abs stat True walk w show ?thesis by (simp add: Let_def)
        next
          case None
          with run abs stat True walk have "zip_inputs h st1 rest = (r, st')"
            by (simp add: Let_def)
          from extends_trans [OF w Cons.IH [OF this]] show ?thesis .
        qed
      next
        case False
        let ?k = "fp_ToSlash h (fp_Base h a)"
        show ?thesis
        proof (cases "processed st ?k")
          case True
          with run abs stat False have "zip_inputs h st rest = (r, st')" by (simp add: Let_def)
          from Cons.IH [OF this] show ?thesis .
        next
          case fresh: False
          obtain r1 st1 where add: "addFileToZip h st a ?k = (r1, st1)"
            by (cases "addFileToZip h st a ?k")
          have one: "extends h st st1"
            using addFileToZip_extends [OF add _ _ fresh] by simp
          show ?thesis
          proof (cases r1)
            case (Some err)
            with run abs stat False fresh add one show ?thesis by (simp add: Let_def)
          next
            case None
            let ?st2 = "st1\<lparr>processed := (processed st1)(?k := True)\<rparr>"
            from run abs stat False fresh add None
            have rest: "zip_inputs h ?st2 rest = (r, st')" by (simp add: Let_def)
            have "extends h st1 ?st2" by (rule extends_mark) simp_all
            from extends_trans [OF extends_trans [OF one this] Cons.IH [OF rest]]
            show ?thesis .
          qed
        qed
      qed
    qed
  qed
qed

lemma fst_Zip:
  "fst (Zip h opts) =
     (case os_Create h (OutputPath (loadOptions opts)) of
        Some err \<Rightarrow> Some err
      | None \<Rightarrow> fst (zip_inputs h new_state (InputPaths (loadOptions opts))))"
  by (simp add: Zip_def Let_def split: option.splits prod.splits)

lemmas unix_host_simps =
  unix_host_def unix_Abs_def unix_Clean_def unix_Base_def unix_Dir_def unix_Rel_def
  unix_ToSlash_def is_rooted_def below_def info_of_def

subsection \<open>Zip as a whole\<close>

lemma entries_deferred [simp]:
  "entries (deferred_zipWriter_Close h st) = entries st"
  "entries (deferred_zipFile_Close h st) = entries st"
  by (simp_all add: deferred_zipWriter_Close_def deferred_zipFile_Close_def split: option.splits)

lemma processed_deferred [simp]:
  "processed (deferred_zipWriter_Close h st) = processed st"
  "processed (deferred_zipFile_Close h st) = processed st"
  by (simp_all add: deferred_zipWriter_Close_def deferred_zipFile_Close_def split: option.splits)

lemma Zip_created:
  assumes "os_Create h (OutputPath (loadOptions opts)) = None"
    and "zip_inputs h new_state (InputPaths (loadOptions opts)) = (ret, st)"
  shows "Zip h opts = (ret, deferred_zipFile_Close h (deferred_zipWriter_Close h st))"
  using assms by (simp add: Zip_def Let_def)

lemma Zip_not_created:
  assumes "os_Create h (OutputPath (loadOptions opts)) = Some err"
  shows "Zip h opts = (Some err, new_state)"
  using assms by (simp add: Zip_def Let_def)

lemma Zip_cases:
  obtains (not_created) err where "os_Create h (OutputPath (loadOptions opts)) = Some err"
      "Zip h opts = (Some err, new_state)"
  | (created) ret st where "os_Create h (OutputPath (loadOptions opts)) = None"
      "zip_inputs h new_state (InputPaths (loadOptions opts)) = (ret, st)"
      "Zip h opts = (ret, deferred_zipFile_Close h (deferred_zipWriter_Close h st))"
proof (cases "os_Create h (OutputPath (loadOptions opts))")
  case None
  obtain ret st where "zip_inputs h new_state (InputPaths (loadOptions opts)) = (ret, st)"
    by (cases "zip_inputs h new_state (InputPaths (loadOptions opts))")
  with None created Zip_created show ?thesis by blast
next
  case (Some err)
  with not_created Zip_not_created show ?thesis by blast
qed

lemma Zip_entries_made: "e \<in> set (entries (snd (Zip h opts))) \<Longrightarrow> made h e"
proof (cases h opts rule: Zip_cases)
  case (not_created err)
  assume "e \<in> set (entries (snd (Zip h opts)))"
  with not_created show ?thesis by (simp add: new_state_def)
next
  case (created ret st)
  assume e: "e \<in> set (entries (snd (Zip h opts)))"
  from zip_inputs_extends [OF created(2)] obtain new where
    "entries st = entries new_state @ new" "\<forall>e \<in> set new. made h e"
    unfolding extends_def by blast
  with e created(3) show ?thesis by (simp add: new_state_def)
qed

lemma Zip_first_wins:
  "first_wins (discovered h (InputPaths (loadOptions opts))) (snd (Zip h opts))"
proof (cases h opts rule: Zip_cases)
  case (not_created err)
  then show ?thesis by (simp add: first_wins_def new_state_def)
next
  case (created ret st)
  from zip_inputs_inv [OF seen_inv_new_state created(2)]
  have "first_wins (discovered h (InputPaths (loadOptions opts))) st" by simp
  with created(3) first_wins_cong [of "snd (Zip h opts)" st] show ?thesis by simp
qed

lemma Zip_seen_inv:
  assumes "fst (Zip h opts) = None"
  shows "seen_inv h (discovered h (InputPaths (loadOptions opts))) (snd (Zip h opts))"
proof (cases h opts rule: Zip_cases)
  case (not_created err)
  with assms show ?thesis by simp
next
  case (created ret st)
  with assms have "ret = None" by simp
  with zip_inputs_inv [OF seen_inv_new_state created(2)]
  have "seen_inv h (discovered h (InputPaths (loadOptions opts))) st" by simp
  with created(3) seen_inv_cong [of "snd (Zip h opts)" st] show ?thesis by simp
qed

lemma effects_deferred:
  "effects (deferred_zipFile_Close h (deferred_zipWriter_Close h st)) =
     effects st
     @ ZipWriter_Close (zw_Close h (entries st))
       # (case zw_Close h (entries st) of Some err \<Rightarrow> [Printf (Err_closing_zip err)] | None \<Rightarrow> [])
     @ ZipFile_Close (zf_Close h)
       # (case zf_Close h of Some err \<Rightarrow> [Printf (Err_creating_zip err)] | None \<Rightarrow> [])"
  by (simp add: deferred_zipWriter_Close_def deferred_zipFile_Close_def split: option.splits)

lemma Walk_append:
  "Walk h b st (vs @ ws) =
     (case Walk h b st vs of
        (Some err, st') \<Rightarrow> (Some err, st')
      | (None, st') \<Rightarrow> Walk h b st' ws)"
  by (induction vs arbitrary: st) (auto split: prod.splits option.splits)

lemma zip_inputs_append:
  "zip_inputs h st (xs @ ys) =
     (case zip_inputs h st xs of
        (Some err, st') \<Rightarrow> (Some err, st')
      | (None, st') \<Rightarrow> zip_inputs h st' ys)"
proof (induction xs arbitrary: st)
  case Nil
  show ?case by simp
next
  case (Cons x xs)
  show ?case
    by (simp add: Cons.IH Let_def split: sum.splits prod.splits option.splits)
qed

lemma extends_seen_key:
  assumes "extends h st st'" "processed st k"
  shows "processed st' k \<and> filter (\<lambda>e. key e = k) (entries st') = filter (\<lambda>e. key e = k) (entries st)"
proof -
  from assms(1) obtain new where new: "entries st' = entries st @ new"
    "\<forall>e \<in> set new. made h e \<and> \<not> processed st (key e)"
    and mono: "\<forall>k. processed st k \<longrightarrow> processed st' k"
    unfolding extends_def by blast
  from new(2) assms(2) have "\<forall>e \<in> set new. key e \<noteq> k" by auto
  then have "filter (\<lambda>e. key e = k) new = []" by (simp add: filter_empty_conv)
  with new(1) mono assms(2) show ?thesis by simp
qed

lemma Zip_no_entry_when_first_skipped:
  assumes "first_with_key k (discovered h (InputPaths (loadOptions opts))) = Some p"
    and "\<not> is_file h p"
  shows "k \<notin> key ` set (entries (snd (Zip h opts)))"
proof
  assume "k \<in> key ` set (entries (snd (Zip h opts)))"
  then obtain e where e: "e \<in> set (entries (snd (Zip h opts)))" "key e = k" by auto
  with Zip_first_wins [of h opts] assms(1) have "src e = p"
    by (auto simp: first_wins_def)
  moreover from Zip_entries_made [OF e(1)] have "is_file h (src e)" by (simp add: made_def)
  ultimately show False using assms(2) by simp
qed

subsection \<open>The effects of a job do not steer it\<close>













subsection \<open>What a job that returns nil has gone through\<close>

lemma Walk_None_visit:
  assumes "Walk h b st vs = (None, st')" "Visit_ok p info \<in> set vs" "\<not> fi_IsDir info"
  shows "\<exists>relPath. fp_Rel h b p = Inr relPath
           \<and> (p, fp_ToSlash h relPath) \<in> set (found_in_walk h b vs)"
  using assms
proof (induction vs arbitrary: st)
  case Nil
  then show ?case by simp
next
  case (Cons v vs)
  obtain r1 st1 where step: "walkFn h b st v = (r1, st1)" by (cases "walkFn h b st v")
  with Cons.prems(1) have r1: "r1 = None" and rest: "Walk h b st1 vs = (None, st')"
    by (auto split: option.splits)
  have split: "found_in_walk h b (v # vs) = found_in_walk h b [v] @ found_in_walk h b vs"
    using found_in_walk_append [of h b "[v]" vs] by simp
  show ?case
  proof (cases "v = Visit_ok p info")
    case True
    with step r1 Cons.prems(3) obtain relPath where rel: "fp_Rel h b p = Inr relPath"
      by (cases "fp_Rel h b p") auto
    with True Cons.prems(3) have "(p, fp_ToSlash h relPath) \<in> set (found_in_walk h b [v])"
      by simp
    with rel show ?thesis unfolding split by auto
  next
    case False
    with Cons.prems(2) have "Visit_ok p info \<in> set vs" by simp
    from Cons.IH [OF rest this Cons.prems(3)] show ?thesis unfolding split by auto
  qed
qed

lemma zip_inputs_None_dir:
  assumes "zip_inputs h st inputs = (None, st')" "source \<in> set inputs"
    and "fp_Abs h source = Inr a" "os_Stat h a = Inr info" "fi_IsDir info"
  shows "\<exists>st1 st2. Walk h (fp_Dir h a) st1 (fp_Walk h a) = (None, st2)"
  using assms(1,2)
proof (induction inputs arbitrary: st)
  case Nil
  then show ?case by simp
next
  case (Cons x rest)
  have l: "zip_inputs h st (x # rest) =
      (case zip_inputs h st [x] of
         (Some err, st') \<Rightarrow> (Some err, st') | (None, st') \<Rightarrow> zip_inputs h st' rest)"
    using zip_inputs_append [of h st "[x]" rest] by simp
  obtain r1 st1 where one: "zip_inputs h st [x] = (r1, st1)" by (cases "zip_inputs h st [x]")
  with l Cons.prems(1) have r1: "r1 = None" and rest: "zip_inputs h st1 rest = (None, st')"
    by (auto split: option.splits)
  show ?case
  proof (cases "x = source")
    case True
    with one r1 assms(3-5) have "fst (Walk h (fp_Dir h a) st (fp_Walk h a)) = None"
      by (auto simp: Let_def split: prod.splits option.splits)
    then have "Walk h (fp_Dir h a) st (fp_Walk h a)
        = (None, snd (Walk h (fp_Dir h a) st (fp_Walk h a)))"
      by (simp add: prod_eq_iff)
    then show ?thesis by blast
  next
    case False
    with Cons.prems(2) have "source \<in> set rest" by simp
    from Cons.IH [OF rest this] show ?thesis .
  qed
qed

lemma discovered_dir:
  assumes "source \<in> set inputs" "fp_Abs h source = Inr a" "os_Stat h a = Inr info" "fi_IsDir info"
  shows "set (found_in_walk h (fp_Dir h a) (fp_Walk h a)) \<subseteq> set (discovered h inputs)"
  using assms(1)
proof (induction inputs)
  case Nil
  then show ?case by simp
next
  case (Cons x rest)
  show ?case
  proof (cases "x = source")
    case True
    with assms(2-4) show ?thesis by auto
  next
    case False
    with Cons have "set (found_in_walk h (fp_Dir h a) (fp_Walk h a)) \<subseteq> set (discovered h rest)"
      by simp
    then show ?thesis by (auto split: sum.splits)
  qed
qed

lemma discovered_file:
  assumes "source \<in> set inputs" "fp_Abs h source = Inr a" "os_Stat h a = Inr info"
    "\<not> fi_IsDir info"
  shows "(a, fp_ToSlash h (fp_Base h a)) \<in> set (discovered h inputs)"
  using assms(1)
proof (induction inputs)
  case Nil
  then show ?case by simp
next
  case (Cons x rest)
  show ?case
  proof (cases "x = source")
    case True
    with assms(2-4) show ?thesis by auto
  next
    case False
    with Cons have "(a, fp_ToSlash h (fp_Base h a)) \<in> set (discovered h rest)" by simp
    then show ?thesis by (auto split: sum.splits)
  qed
qed

lemma Zip_None_created:
  assumes "fst (Zip h opts) = None"
  shows "\<exists>st. zip_inputs h new_state (InputPaths (loadOptions opts)) = (None, st)"
proof (cases h opts rule: Zip_cases)
  case (not_created err)
  with assms show ?thesis by simp
next
  case (created ret st)
  with assms show ?thesis by simp
qed

lemma Zip_None_stored:
  assumes ok: "fst (Zip h opts) = None"
    and found: "(p, k) \<in> set (discovered h (InputPaths (loadOptions opts)))"
  shows "processed (snd (Zip h opts)) k"
    and "is_file h p \<Longrightarrow> first_with_key k (discovered h (InputPaths (loadOptions opts))) = Some p
         \<Longrightarrow> \<exists>e \<in> set (entries (snd (Zip h opts))). key e = k \<and> src e = p
                \<and> content h p = Some (data e)"
proof -
  note inv = Zip_seen_inv [OF ok]
  from found have "k \<in> snd ` set (discovered h (InputPaths (loadOptions opts)))" by force
  then show "processed (snd (Zip h opts)) k" by (simp only: seen_inv_processed [OF inv])
  assume "is_file h p" "first_with_key k (discovered h (InputPaths (loadOptions opts))) = Some p"
  with inv obtain e where e: "e \<in> set (entries (snd (Zip h opts)))" "src e = p" "key e = k"
    unfolding seen_inv_def by blast
  from Zip_entries_made [OF e(1)] e(2) have "content h p = Some (data e)" by (simp add: made_def)
  with e show "\<exists>e \<in> set (entries (snd (Zip h opts))). key e = k \<and> src e = p
                \<and> content h p = Some (data e)" by blast
qed

subsection \<open>Base names on Unix\<close>

lemma elements_no_slash:
  "CHR ''/'' \<notin> set cur \<Longrightarrow> e \<in> set (elements cur p) \<Longrightarrow> CHR ''/'' \<notin> set e"
  by (induction cur p rule: elements.induct) (auto split: if_splits)

lemma unix_Base_no_slash:
  assumes "elements [] p \<noteq> []"
  shows "CHR ''/'' \<notin> set (unix_Base p)"
proof -
  from assms obtain e es where rev: "rev (elements [] p) = e # es"
    by (cases "rev (elements [] p)") auto
  then have "e \<in> set (elements [] p)" by (metis list.set_intros(1) set_rev)
  then have "CHR ''/'' \<notin> set e" using elements_no_slash [of "[]" e p] by simp
  with rev show ?thesis by (simp add: unix_Base_def)
qed

subsection \<open>Files that are not regular\<close>

lemma addFileToZip_opened:
  assumes "os_Stat h filePath = Inr info" "\<not> fi_IsDir info" "os_Open h filePath = Inr f"
  shows "addFileToZip h st filePath zipPath =
     (case addOpenFile h st f filePath zipPath of
        (ret, st') \<Rightarrow>
          (ret, case f_Close f of
                  Some err \<Rightarrow> emit (Printf (Err_closing_file filePath err)) st'
                | None \<Rightarrow> st'))"
  using assms by (simp add: addFileToZip_def)

lemma run_host_pipe:
  "os_Stat run_host ''/w/run/events'' = Inr (pipe_info ''/w/run/events'')"
  "os_Open run_host ''/w/run/events''
     = Inr \<lparr>f_Stat = Inr (pipe_info ''/w/run/events''), f_Copy = (''ping'', None), f_Close = None\<rparr>"
  "zw_CreateHeader run_host fh = None"
  by (simp_all add: run_host_def run_fs_def unix_host_def)

lemma run_host_socket:
  "os_Stat run_host ''/w/run/app.sock'' = Inr (socket_info ''/w/run/app.sock'')"
  "os_Open run_host ''/w/run/app.sock'' = Inl (ErrOther ''no such device or address'')"
  by (simp_all add: run_host_def run_fs_def unix_host_def)

lemma not_dir_special:
  "\<not> fi_IsDir (pipe_info p)" "\<not> fi_IsDir (socket_info p)"
  by (simp_all add: pipe_info_def socket_info_def)

lemma not_regular_special:
  "\<not> IsRegular (pipe_info p)" "\<not> IsRegular (socket_info p)"
  by (simp_all add: IsRegular_def pipe_info_def socket_info_def bit_iff_odd)

lemma pipe_addOpenFile:
  "addOpenFile run_host new_state
     \<lparr>f_Stat = Inr (pipe_info ''/w/run/events''), f_Copy = (''ping'', None), f_Close = None\<rparr>
     ''/w/run/events'' ''run/events'' =
     (None,
      emit (Printf (Added ''run/events''))
        (new_state\<lparr>entries :=
           [\<lparr>hdr = \<lparr>Name = ''run/events'', Method = Deflate,
                     UncompressedSize64 = fi_Size (pipe_info ''/w/run/events''),
                     Modified = fi_ModTime (pipe_info ''/w/run/events''),
                     Mode = fi_Mode (pipe_info ''/w/run/events'')\<rparr>,
              src = ''/w/run/events'', data = ''ping''\<rparr>]\<rparr>))"
  by (simp add: addOpenFile_def FileInfoHeader_def run_host_pipe(3) not_dir_special new_state_def)

lemma pipe_added:
  "addFileToZip run_host new_state ''/w/run/events'' ''run/events'' =
     (None,
      emit (Printf (Added ''run/events''))
        (new_state\<lparr>entries :=
           [\<lparr>hdr = \<lparr>Name = ''run/events'', Method = Deflate,
                     UncompressedSize64 = fi_Size (pipe_info ''/w/run/events''),
                     Modified = fi_ModTime (pipe_info ''/w/run/events''),
                     Mode = fi_Mode (pipe_info ''/w/run/events'')\<rparr>,
              src = ''/w/run/events'', data = ''ping''\<rparr>]\<rparr>))"
  by (simp add: addFileToZip_opened [OF run_host_pipe(1) not_dir_special(1) run_host_pipe(2)]
      pipe_addOpenFile)

section \<open>The claims\<close>

text \<open>
  C1 as stated does not hold: the two copies of the project both hold a file with the
  key \<^verbatim>\<open>proj/cfg\<close>, the job over both returns nil, and the archive has no entry
  for that key (the first of the two is a link to nothing, and the second is skipped
  because the key is seen).
\<close>

theorem dedup_exactly_one_counterexample:
  "discovered copies_host [''old/proj'', ''new/proj'']
     = [(''/w/old/proj/cfg'', ''proj/cfg''), (''/w/old/proj/x.txt'', ''proj/x.txt''),
        (''/w/new/proj/cfg'', ''proj/cfg''), (''/w/new/proj/x.txt'', ''proj/x.txt'')]
   \<and> fst (Zip copies_host [WithPaths [''old/proj'', ''new/proj''] ''out.zip'']) = None
   \<and> map key (entries (snd (Zip copies_host [WithPaths [''old/proj'', ''new/proj''] ''out.zip''])))
       = [''proj/x.txt'']"
  by code_simp

text \<open>
  C1, amended. For every job, the archive has at most one entry for each archive key,
  and an entry is that of the first discovered file with its key, with the bytes read
  from that file. When the job returns nil, the first discovered file with a key has
  its entry if it passes the check before opening; when it does not pass, the key has
  no entry. A later file with a key already seen is skipped without error, in a walk
  and as an input.
\<close>

theorem first_file_with_a_key_wins:
  "distinct (map key (entries (snd (Zip h opts))))
   \<and> (\<forall>e \<in> set (entries (snd (Zip h opts))).
         first_with_key (key e) (discovered h (InputPaths (loadOptions opts))) = Some (src e)
         \<and> content h (src e) = Some (data e))
   \<and> (fst (Zip h opts) = None
        \<and> first_with_key k (discovered h (InputPaths (loadOptions opts))) = Some p \<longrightarrow>
        (if is_file h p
         then \<exists>e \<in> set (entries (snd (Zip h opts))). key e = k \<and> src e = p
         else k \<notin> key ` set (entries (snd (Zip h opts)))))
   \<and> (processed st k \<and> \<not> fi_IsDir info \<and> fp_Rel h b q = Inr relPath
        \<and> fp_ToSlash h relPath = k \<longrightarrow>
        walkFn h b st (Visit_ok q info) = (None, st))
   \<and> (processed st k \<and> fp_Abs h source = Inr q \<and> os_Stat h q = Inr info \<and> \<not> fi_IsDir info
        \<and> fp_ToSlash h (fp_Base h q) = k \<longrightarrow>
        zip_inputs h st (source # rest) = zip_inputs h st rest)"
proof (intro conjI impI ballI)
  show "distinct (map key (entries (snd (Zip h opts))))"
    using Zip_first_wins [of h opts] by (simp add: first_wins_def)
next
  fix e assume e: "e \<in> set (entries (snd (Zip h opts)))"
  then show "first_with_key (key e) (discovered h (InputPaths (loadOptions opts))) = Some (src e)"
    using Zip_first_wins [of h opts] by (simp add: first_wins_def)
  from Zip_entries_made [OF e] show "content h (src e) = Some (data e)"
    by (simp add: made_def)
next
  assume a: "fst (Zip h opts) = None
        \<and> first_with_key k (discovered h (InputPaths (loadOptions opts))) = Some p"
  show "if is_file h p
         then \<exists>e \<in> set (entries (snd (Zip h opts))). key e = k \<and> src e = p
         else k \<notin> key ` set (entries (snd (Zip h opts)))"
  proof (cases "is_file h p")
    case True
    from a have "seen_inv h (discovered h (InputPaths (loadOptions opts))) (snd (Zip h opts))"
      by (simp add: Zip_seen_inv)
    with a True have "\<exists>e \<in> set (entries (snd (Zip h opts))). src e = p \<and> key e = k"
      unfolding seen_inv_def by blast
    with True show ?thesis by auto
  next
    case False
    with a Zip_no_entry_when_first_skipped [of k h opts p] show ?thesis by simp
  qed
next
  assume "processed st k \<and> \<not> fi_IsDir info \<and> fp_Rel h b q = Inr relPath
        \<and> fp_ToSlash h relPath = k"
  then show "walkFn h b st (Visit_ok q info) = (None, st)" by (auto simp: Let_def)
next
  assume "processed st k \<and> fp_Abs h source = Inr q \<and> os_Stat h q = Inr info \<and> \<not> fi_IsDir info
        \<and> fp_ToSlash h (fp_Base h q) = k"
  then show "zip_inputs h st (source # rest) = zip_inputs h st rest" by (auto simp: Let_def)
qed

theorem first_file_with_a_key_wins_witness:
  "distinct (map key (entries (snd (Zip copies_host
      [WithPaths [''old/proj'', ''new/proj'', ''new/proj/x.txt''] ''out.zip'']))))
   \<and> map (\<lambda>e. (key e, src e, data e)) (entries (snd (Zip copies_host
        [WithPaths [''old/proj'', ''new/proj'', ''new/proj/x.txt''] ''out.zip''])))
       = [(''proj/x.txt'', ''/w/old/proj/x.txt'', ''old''),
          (''x.txt'', ''/w/new/proj/x.txt'', ''new'')]
   \<and> first_with_key ''proj/x.txt''
        (discovered copies_host [''old/proj'', ''new/proj'', ''new/proj/x.txt''])
       = Some ''/w/old/proj/x.txt''
   \<and> content copies_host ''/w/old/proj/x.txt'' = Some ''old''
   \<and> (\<exists>e \<in> set (entries (snd (Zip copies_host
          [WithPaths [''old/proj'', ''new/proj'', ''new/proj/x.txt''] ''out.zip'']))).
        key e = ''proj/x.txt'' \<and> src e = ''/w/old/proj/x.txt'')
   \<and> first_with_key ''proj/cfg''
        (discovered copies_host [''old/proj'', ''new/proj'', ''new/proj/x.txt''])
       = Some ''/w/old/proj/cfg''
   \<and> ''proj/cfg'' \<notin> key ` set (entries (snd (Zip copies_host
        [WithPaths [''old/proj'', ''new/proj'', ''new/proj/x.txt''] ''out.zip''])))
   \<and> walkFn copies_host ''/w/new''
        (new_state\<lparr>processed := (\<lambda>k. k = ''proj/x.txt'')\<rparr>)
        (Visit_ok ''/w/new/proj/x.txt'' (info_of ''/w/new/proj/x.txt'' False 3))
       = (None, new_state\<lparr>processed := (\<lambda>k. k = ''proj/x.txt'')\<rparr>)
   \<and> zip_inputs copies_host (new_state\<lparr>processed := (\<lambda>k. k = ''x.txt'')\<rparr>)
        [''new/proj/x.txt'']
       = (None, new_state\<lparr>processed := (\<lambda>k. k = ''x.txt'')\<rparr>)"
proof -
  let ?h = copies_host
  let ?opts = "[WithPaths [''old/proj'', ''new/proj'', ''new/proj/x.txt''] ''out.zip'']"
  let ?E = "entries (snd (Zip ?h ?opts))"
  let ?e = "hd ?E"
  have inputs: "InputPaths (loadOptions ?opts) = [''old/proj'', ''new/proj'', ''new/proj/x.txt'']"
    by (simp add: loadOptions_def WithPaths_def)
  have all: "map (\<lambda>e. (key e, src e, data e)) ?E
       = [(''proj/x.txt'', ''/w/old/proj/x.txt'', ''old''),
          (''x.txt'', ''/w/new/proj/x.txt'', ''new'')]"
    by code_simp
  then have mem: "?e \<in> set ?E" by auto
  have hd: "key ?e = ''proj/x.txt''" "src ?e = ''/w/old/proj/x.txt''" "data ?e = ''old''"
    by code_simp+
  have ok: "fst (Zip ?h ?opts) = None" by code_simp
  have first_cfg: "first_with_key ''proj/cfg'' (discovered ?h (InputPaths (loadOptions ?opts)))
       = Some ''/w/old/proj/cfg''"
    by code_simp
  have first_x: "first_with_key ''proj/x.txt'' (discovered ?h (InputPaths (loadOptions ?opts)))
       = Some ''/w/old/proj/x.txt''"
    by code_simp
  have files: "\<not> is_file ?h ''/w/old/proj/cfg''" "is_file ?h ''/w/old/proj/x.txt''"
    by code_simp+
  note t = first_file_with_a_key_wins [where h = ?h and opts = ?opts]
  have a: "distinct (map key ?E)" using t by blast
  have b: "first_with_key (key ?e) (discovered ?h (InputPaths (loadOptions ?opts))) = Some (src ?e)"
    "content ?h (src ?e) = Some (data ?e)"
    using t mem by blast+
  have c: "\<exists>e \<in> set ?E. key e = ''proj/x.txt'' \<and> src e = ''/w/old/proj/x.txt''"
    using first_file_with_a_key_wins
      [where h = ?h and opts = ?opts and k = "''proj/x.txt''" and p = "''/w/old/proj/x.txt''"]
      ok first_x files by presburger
  have d: "''proj/cfg'' \<notin> key ` set ?E"
    using first_file_with_a_key_wins
      [where h = ?h and opts = ?opts and k = "''proj/cfg''" and p = "''/w/old/proj/cfg''"]
      ok first_cfg files by presburger
  let ?st = "new_state\<lparr>processed := (\<lambda>k. k = ''proj/x.txt'')\<rparr>"
  let ?info = "info_of ''/w/new/proj/x.txt'' False 3"
  have rel: "fp_Rel ?h ''/w/new'' ''/w/new/proj/x.txt'' = Inr ''proj/x.txt''" by code_simp
  have slash: "fp_ToSlash ?h ''proj/x.txt'' = ''proj/x.txt''" by code_simp
  have notdir: "\<not> fi_IsDir ?info" by (simp add: info_of_def)
  have e: "walkFn ?h ''/w/new'' ?st (Visit_ok ''/w/new/proj/x.txt'' ?info) = (None, ?st)"
    using first_file_with_a_key_wins
      [where h = ?h and st = ?st and k = "''proj/x.txt''" and info = ?info and b = "''/w/new''"
         and q = "''/w/new/proj/x.txt''" and relPath = "''proj/x.txt''"]
      rel slash notdir by simp
  let ?st2 = "new_state\<lparr>processed := (\<lambda>k. k = ''x.txt'')\<rparr>"
  have abs: "fp_Abs ?h ''new/proj/x.txt'' = Inr ''/w/new/proj/x.txt''" by code_simp
  have stat: "os_Stat ?h ''/w/new/proj/x.txt'' = Inr (info_of ''/w/new/proj/x.txt'' False 3)"
    by code_simp
  have base: "fp_ToSlash ?h (fp_Base ?h ''/w/new/proj/x.txt'') = ''x.txt''" by code_simp
  have f: "zip_inputs ?h ?st2 [''new/proj/x.txt''] = (None, ?st2)"
    using first_file_with_a_key_wins
      [where h = ?h and st = ?st2 and k = "''x.txt''" and info = ?info
         and q = "''/w/new/proj/x.txt''" and source = "''new/proj/x.txt''" and rest = "[]"]
      abs stat base notdir by simp
  from a all b c d e f hd first_cfg first_x show ?thesis
    unfolding inputs by simp
qed

text \<open>
  C2 as stated does not hold: \<^verbatim>\<open>new/proj\<close> is a directory input, its descendant
  \<^verbatim>\<open>cfg\<close> is a regular file, the job returns nil, and the archive has no entry
  for it: its only entry comes from the old copy.
\<close>

theorem directory_file_not_stored_counterexample:
  "fp_Abs copies_host ''new/proj'' = Inr ''/w/new/proj''
   \<and> os_Stat copies_host ''/w/new/proj'' = Inr (info_of ''/w/new/proj'' True 0)
   \<and> fp_Walk copies_host ''/w/new/proj''
       = [Visit_ok ''/w/new/proj'' (info_of ''/w/new/proj'' True 0),
          Visit_ok ''/w/new/proj/cfg'' (info_of ''/w/new/proj/cfg'' False 8),
          Visit_ok ''/w/new/proj/x.txt'' (info_of ''/w/new/proj/x.txt'' False 3)]
   \<and> os_Stat copies_host ''/w/new/proj/cfg'' = Inr (info_of ''/w/new/proj/cfg'' False 8)
   \<and> fp_Rel copies_host (fp_Dir copies_host ''/w/new/proj'') ''/w/new/proj/cfg'' = Inr ''proj/cfg''
   \<and> fst (Zip copies_host [WithPaths [''old/proj'', ''new/proj''] ''out.zip'']) = None
   \<and> map (\<lambda>e. (key e, src e))
        (entries (snd (Zip copies_host [WithPaths [''old/proj'', ''new/proj''] ''out.zip''])))
       = [(''proj/x.txt'', ''/w/old/proj/x.txt'')]"
  by code_simp

text \<open>
  C2, amended. In a job that returns nil, every descendant of a directory input that
  the walk reports as not a directory is processed under its path relative to the
  directory's parent, with forward slashes: the key is seen when the job ends, and
  when the descendant passes the check before opening and is the first discovered
  file with that key, the archive has its entry under that key, with its bytes (a
  descendant whose key was seen earlier is skipped). The source of every entry of
  every job passed the check before opening, so it is not a directory, and a visit
  of a directory changes nothing but the lines printed.
\<close>

theorem directory_files_stored_under_relative_path:
  "(fst (Zip h opts) = None \<and> source \<in> set (InputPaths (loadOptions opts))
      \<and> fp_Abs h source = Inr a \<and> os_Stat h a = Inr info \<and> fi_IsDir info
      \<and> Visit_ok p pinfo \<in> set (fp_Walk h a) \<and> \<not> fi_IsDir pinfo \<longrightarrow>
      (\<exists>relPath. fp_Rel h (fp_Dir h a) p = Inr relPath
         \<and> processed (snd (Zip h opts)) (fp_ToSlash h relPath)
         \<and> (is_file h p
              \<and> first_with_key (fp_ToSlash h relPath)
                   (discovered h (InputPaths (loadOptions opts))) = Some p \<longrightarrow>
             (\<exists>e \<in> set (entries (snd (Zip h opts))).
                key e = fp_ToSlash h relPath \<and> src e = p \<and> content h p = Some (data e)))))
   \<and> (\<forall>e \<in> set (entries (snd (Zip h opts))). is_file h (src e))
   \<and> (fi_IsDir dinfo \<longrightarrow>
        walkFn h b st (Visit_ok d dinfo) = (None, emit (Printf (Skipping_directory d)) st))"
proof (intro conjI impI ballI)
  assume a: "fst (Zip h opts) = None \<and> source \<in> set (InputPaths (loadOptions opts))
      \<and> fp_Abs h source = Inr a \<and> os_Stat h a = Inr info \<and> fi_IsDir info
      \<and> Visit_ok p pinfo \<in> set (fp_Walk h a) \<and> \<not> fi_IsDir pinfo"
  let ?inputs = "InputPaths (loadOptions opts)"
  from a obtain st' where "zip_inputs h new_state ?inputs = (None, st')"
    using Zip_None_created by blast
  with a obtain st1 st2 where "Walk h (fp_Dir h a) st1 (fp_Walk h a) = (None, st2)"
    using zip_inputs_None_dir [of h new_state ?inputs st' source a info] by blast
  with a obtain relPath where rel: "fp_Rel h (fp_Dir h a) p = Inr relPath"
    and mem: "(p, fp_ToSlash h relPath) \<in> set (found_in_walk h (fp_Dir h a) (fp_Walk h a))"
    using Walk_None_visit [of h "fp_Dir h a" st1 "fp_Walk h a" st2 p pinfo] by blast
  from mem a have found: "(p, fp_ToSlash h relPath) \<in> set (discovered h ?inputs)"
    using discovered_dir [of source ?inputs h a info] by blast
  from a have ok: "fst (Zip h opts) = None" by simp
  note stored = Zip_None_stored [OF ok found]
  from rel stored show "\<exists>relPath. fp_Rel h (fp_Dir h a) p = Inr relPath
         \<and> processed (snd (Zip h opts)) (fp_ToSlash h relPath)
         \<and> (is_file h p
              \<and> first_with_key (fp_ToSlash h relPath)
                   (discovered h (InputPaths (loadOptions opts))) = Some p \<longrightarrow>
             (\<exists>e \<in> set (entries (snd (Zip h opts))).
                key e = fp_ToSlash h relPath \<and> src e = p \<and> content h p = Some (data e)))"
    by blast
next
  fix e assume "e \<in> set (entries (snd (Zip h opts)))"
  from Zip_entries_made [OF this] show "is_file h (src e)" by (simp add: made_def)
next
  assume "fi_IsDir dinfo"
  then show "walkFn h b st (Visit_ok d dinfo) = (None, emit (Printf (Skipping_directory d)) st)"
    by simp
qed

theorem directory_files_stored_under_relative_path_witness:
  "fp_Rel proj_host (fp_Dir proj_host ''/w/proj'') ''/w/proj/sub/b.txt'' = Inr ''proj/sub/b.txt''
   \<and> processed (snd (Zip proj_host [WithPaths [''proj/''] ''out.zip''])) ''proj/sub/b.txt''
   \<and> (\<exists>e \<in> set (entries (snd (Zip proj_host [WithPaths [''proj/''] ''out.zip'']))).
         key e = ''proj/sub/b.txt'' \<and> src e = ''/w/proj/sub/b.txt'' \<and> data e = ''world'')
   \<and> map (\<lambda>e. (key e, data e)) (entries (snd (Zip proj_host [WithPaths [''proj/''] ''out.zip''])))
       = [(''proj/a.txt'', ''hello''), (''proj/sub/b.txt'', ''world'')]
   \<and> is_file proj_host
        (src (hd (entries (snd (Zip proj_host [WithPaths [''proj/''] ''out.zip''])))))
   \<and> walkFn proj_host ''/w'' new_state (Visit_ok ''/w/proj/sub'' (info_of ''/w/proj/sub'' True 0))
       = (None, emit (Printf (Skipping_directory ''/w/proj/sub'')) new_state)"
proof -
  let ?h = proj_host
  let ?opts = "[WithPaths [''proj/''] ''out.zip'']"
  let ?p = "''/w/proj/sub/b.txt''"
  let ?k = "''proj/sub/b.txt''"
  let ?E = "entries (snd (Zip ?h ?opts))"
  have ok: "fst (Zip ?h ?opts) = None" by code_simp
  have inp: "''proj/'' \<in> set (InputPaths (loadOptions ?opts))"
    by (simp add: loadOptions_def WithPaths_def)
  have abs: "fp_Abs ?h ''proj/'' = Inr ''/w/proj''" by code_simp
  have stat: "os_Stat ?h ''/w/proj'' = Inr (info_of ''/w/proj'' True 0)" by code_simp
  have isdir: "fi_IsDir (info_of ''/w/proj'' True 0)" by (simp add: info_of_def)
  have vis: "Visit_ok ?p (info_of ?p False 5) \<in> set (fp_Walk ?h ''/w/proj'')" by code_simp
  have notdir: "\<not> fi_IsDir (info_of ?p False 5)" by (simp add: info_of_def)
  have rel: "fp_Rel ?h (fp_Dir ?h ''/w/proj'') ?p = Inr ?k" by code_simp
  have slash: "fp_ToSlash ?h ?k = ?k" by code_simp
  have isfile: "is_file ?h ?p" by code_simp
  have first: "first_with_key ?k (discovered ?h (InputPaths (loadOptions ?opts))) = Some ?p"
    by code_simp
  have bytes: "content ?h ?p = Some ''world''" by code_simp
  have all: "map (\<lambda>e. (key e, data e)) ?E = [(''proj/a.txt'', ''hello''), (''proj/sub/b.txt'', ''world'')]"
    by code_simp
  then have mem: "hd ?E \<in> set ?E" by auto
  note t = directory_files_stored_under_relative_path
    [where h = ?h and opts = ?opts and source = "''proj/''" and a = "''/w/proj''"
       and info = "info_of ''/w/proj'' True 0" and p = ?p and pinfo = "info_of ?p False 5"
       and dinfo = "info_of ''/w/proj/sub'' True 0" and b = "''/w''" and st = new_state
       and d = "''/w/proj/sub''"]
  from t ok inp abs stat isdir vis notdir
  obtain relPath where r: "fp_Rel ?h (fp_Dir ?h ''/w/proj'') ?p = Inr relPath"
    "processed (snd (Zip ?h ?opts)) (fp_ToSlash ?h relPath)"
    "is_file ?h ?p \<and> first_with_key (fp_ToSlash ?h relPath)
         (discovered ?h (InputPaths (loadOptions ?opts))) = Some ?p \<longrightarrow>
     (\<exists>e \<in> set ?E. key e = fp_ToSlash ?h relPath \<and> src e = ?p \<and> content ?h ?p = Some (data e))"
    by blast
  from r(1) rel have relPath: "relPath = ?k" by simp
  from r(2) relPath slash have a: "processed (snd (Zip ?h ?opts)) ?k" by simp
  from r(3) relPath slash isfile first bytes
  have b: "\<exists>e \<in> set ?E. key e = ?k \<and> src e = ?p \<and> data e = ''world''" by auto
  from t mem have c: "is_file ?h (src (hd ?E))" by blast
  have "fi_IsDir (info_of ''/w/proj/sub'' True 0)" by (simp add: info_of_def)
  with t have d: "walkFn ?h ''/w'' new_state (Visit_ok ''/w/proj/sub'' (info_of ''/w/proj/sub'' True 0))
       = (None, emit (Printf (Skipping_directory ''/w/proj/sub'')) new_state)"
    by blast
  from rel a b all c d show ?thesis by simp
qed

text \<open>
  C3. An input that resolves to a file that is not a directory is processed under the
  base name of its absolute path: in a job that returns nil that key is seen when the
  job ends, and when the input is the first discovered file with that key, the
  archive has its entry under the base name, with its bytes. On Unix the base name
  of a path that has an element holds no slash, however many elements the path has.
\<close>

theorem file_input_stored_under_base_name:
  "(fst (Zip h opts) = None \<and> source \<in> set (InputPaths (loadOptions opts))
      \<and> fp_Abs h source = Inr a \<and> os_Stat h a = Inr info \<and> \<not> fi_IsDir info \<longrightarrow>
      processed (snd (Zip h opts)) (fp_ToSlash h (fp_Base h a))
      \<and> (first_with_key (fp_ToSlash h (fp_Base h a))
            (discovered h (InputPaths (loadOptions opts))) = Some a \<longrightarrow>
          (\<exists>e \<in> set (entries (snd (Zip h opts))).
             key e = fp_ToSlash h (fp_Base h a) \<and> src e = a \<and> content h a = Some (data e))))
   \<and> (fp_Base h = unix_Base \<and> fp_ToSlash h = unix_ToSlash \<and> elements [] a \<noteq> [] \<longrightarrow>
        CHR ''/'' \<notin> set (fp_ToSlash h (fp_Base h a)))"
proof (intro conjI impI)
  assume a: "fst (Zip h opts) = None \<and> source \<in> set (InputPaths (loadOptions opts))
      \<and> fp_Abs h source = Inr a \<and> os_Stat h a = Inr info \<and> \<not> fi_IsDir info"
  let ?k = "fp_ToSlash h (fp_Base h a)"
  from a have found: "(a, ?k) \<in> set (discovered h (InputPaths (loadOptions opts)))"
    using discovered_file [of source "InputPaths (loadOptions opts)" h a info] by blast
  from a have ok: "fst (Zip h opts) = None" by simp
  from a have isfile: "is_file h a" by (simp add: is_file_def)
  show "processed (snd (Zip h opts)) ?k" by (rule Zip_None_stored(1) [OF ok found])
  assume "first_with_key ?k (discovered h (InputPaths (loadOptions opts))) = Some a"
  from Zip_None_stored(2) [OF ok found isfile this]
  show "\<exists>e \<in> set (entries (snd (Zip h opts))).
          key e = ?k \<and> src e = a \<and> content h a = Some (data e)" .
next
  assume "fp_Base h = unix_Base \<and> fp_ToSlash h = unix_ToSlash \<and> elements [] a \<noteq> []"
  then show "CHR ''/'' \<notin> set (fp_ToSlash h (fp_Base h a))"
    using unix_Base_no_slash [of a] by (simp add: unix_ToSlash_def)
qed

theorem file_input_stored_under_base_name_witness:
  "fp_Abs proj_host ''proj/sub/b.txt'' = Inr ''/w/proj/sub/b.txt''
   \<and> fp_ToSlash proj_host (fp_Base proj_host ''/w/proj/sub/b.txt'') = ''b.txt''
   \<and> processed (snd (Zip proj_host [WithPaths [''proj/sub/b.txt''] ''out.zip''])) ''b.txt''
   \<and> (\<exists>e \<in> set (entries (snd (Zip proj_host [WithPaths [''proj/sub/b.txt''] ''out.zip'']))).
         key e = ''b.txt'' \<and> src e = ''/w/proj/sub/b.txt'' \<and> data e = ''world'')
   \<and> CHR ''/'' \<notin> set (fp_ToSlash proj_host (fp_Base proj_host ''/w/proj/sub/b.txt''))"
proof -
  let ?h = proj_host
  let ?opts = "[WithPaths [''proj/sub/b.txt''] ''out.zip'']"
  let ?a = "''/w/proj/sub/b.txt''"
  have ok: "fst (Zip ?h ?opts) = None" by code_simp
  have inp: "''proj/sub/b.txt'' \<in> set (InputPaths (loadOptions ?opts))"
    by (simp add: loadOptions_def WithPaths_def)
  have abs: "fp_Abs ?h ''proj/sub/b.txt'' = Inr ?a" by code_simp
  have stat: "os_Stat ?h ?a = Inr (info_of ?a False 5)" by code_simp
  have notdir: "\<not> fi_IsDir (info_of ?a False 5)" by (simp add: info_of_def)
  have base: "fp_ToSlash ?h (fp_Base ?h ?a) = ''b.txt''" by code_simp
  have first: "first_with_key ''b.txt'' (discovered ?h (InputPaths (loadOptions ?opts))) = Some ?a"
    by code_simp
  have bytes: "content ?h ?a = Some ''world''" by code_simp
  have unix: "fp_Base ?h = unix_Base" "fp_ToSlash ?h = unix_ToSlash"
    by (simp_all add: proj_host_def unix_host_def)
  have elems: "elements [] ?a \<noteq> []" by code_simp
  note t = file_input_stored_under_base_name
    [where h = ?h and opts = ?opts and source = "''proj/sub/b.txt''" and a = ?a
       and info = "info_of ?a False 5"]
  from t ok inp abs stat notdir base first bytes
  have a: "processed (snd (Zip ?h ?opts)) ''b.txt''"
    and b: "\<exists>e \<in> set (entries (snd (Zip ?h ?opts))).
         key e = ''b.txt'' \<and> src e = ?a \<and> data e = ''world''"
    by auto
  from t unix elems have c: "CHR ''/'' \<notin> set (fp_ToSlash ?h (fp_Base ?h ?a))" by blast
  from abs base a b c show ?thesis by blast
qed



text \<open>
  C5. When the walk of a directory input reports an error at a path (at the root or at
  a descendant), the function \<^verbatim>\<open>Zip\<close> gave to the walk prints a warning and
  returns the error, the walk stops and \<^verbatim>\<open>Zip\<close> returns the error: the visits
  after it and the inputs after the directory are not processed, whatever they are.
\<close>

theorem walk_error_is_fatal:
  "os_Create h (OutputPath (loadOptions opts)) = None
   \<and> InputPaths (loadOptions opts) = before @ source # after
   \<and> zip_inputs h new_state before = (None, st1)
   \<and> fp_Abs h source = Inr absSource \<and> os_Stat h absSource = Inr info \<and> fi_IsDir info
   \<and> fp_Walk h absSource = vs @ Visit_err p pinfo err # ws
   \<and> Walk h (fp_Dir h absSource) st1 vs = (None, st2) \<longrightarrow>
   Zip h opts =
     (Some err,
      deferred_zipFile_Close h
        (deferred_zipWriter_Close h (emit (Printf (Warn_access p err)) st2)))"
proof
  assume a: "os_Create h (OutputPath (loadOptions opts)) = None
   \<and> InputPaths (loadOptions opts) = before @ source # after
   \<and> zip_inputs h new_state before = (None, st1)
   \<and> fp_Abs h source = Inr absSource \<and> os_Stat h absSource = Inr info \<and> fi_IsDir info
   \<and> fp_Walk h absSource = vs @ Visit_err p pinfo err # ws
   \<and> Walk h (fp_Dir h absSource) st1 vs = (None, st2)"
  let ?st = "emit (Printf (Warn_access p err)) st2"
  from a have "Walk h (fp_Dir h absSource) st1 (fp_Walk h absSource) = (Some err, ?st)"
    by (simp add: Walk_append)
  with a have "zip_inputs h st1 (source # after) = (Some err, ?st)"
    by (simp add: Let_def)
  with a have "zip_inputs h new_state (InputPaths (loadOptions opts)) = (Some err, ?st)"
    by (simp add: zip_inputs_append)
  with a show "Zip h opts =
     (Some err,
      deferred_zipFile_Close h
        (deferred_zipWriter_Close h (emit (Printf (Warn_access p err)) st2)))"
    by (simp add: Zip_created)
qed

theorem walk_error_is_fatal_witness:
  "fst (Zip site_host [WithPaths [''site'', ''more.txt''] ''out.zip'']) = Some ErrPermission
   \<and> map key (entries (snd (Zip site_host [WithPaths [''site'', ''more.txt''] ''out.zip''])))
       = [''site/index.html'']"
proof -
  let ?h = site_host
  let ?opts = "[WithPaths [''site'', ''more.txt''] ''out.zip'']"
  let ?vs = "[Visit_ok ''/w/site'' (info_of ''/w/site'' True 0),
              Visit_ok ''/w/site/index.html'' (info_of ''/w/site/index.html'' False 6)]"
  let ?ws = "[Visit_ok ''/w/site/z.txt'' (info_of ''/w/site/z.txt'' False 1)]"
  let ?walk = "Walk ?h (fp_Dir ?h ''/w/site'') new_state ?vs"
  have created: "os_Create ?h (OutputPath (loadOptions ?opts)) = None"
    by (simp add: site_host_def unix_host_def)
  have inputs: "InputPaths (loadOptions ?opts) = [] @ ''site'' # [''more.txt'']"
    by (simp add: loadOptions_def WithPaths_def)
  have before: "zip_inputs ?h new_state [] = (None, new_state)" by simp
  have abs: "fp_Abs ?h ''site'' = Inr ''/w/site''" by code_simp
  have stat: "os_Stat ?h ''/w/site'' = Inr (info_of ''/w/site'' True 0)" by code_simp
  have isdir: "fi_IsDir (info_of ''/w/site'' True 0)" by code_simp
  have visits: "fp_Walk ?h ''/w/site'' =
      ?vs @ Visit_err ''/w/site/private'' (Some (info_of ''/w/site/private'' True 0)) ErrPermission
            # ?ws"
    by code_simp
  have "fst ?walk = None" by code_simp
  then have walk: "?walk = (None, snd ?walk)" by (simp add: prod_eq_iff)
  have keys: "map key (entries (snd ?walk)) = [''site/index.html'']" by code_simp
  from walk_error_is_fatal [of ?h ?opts "[]" "''site''" "[''more.txt'']" new_state "''/w/site''"
      "info_of ''/w/site'' True 0" ?vs "''/w/site/private''"
      "Some (info_of ''/w/site/private'' True 0)" ErrPermission ?ws "snd ?walk"]
    created inputs before abs stat isdir visits walk
  have "Zip ?h ?opts =
     (Some ErrPermission,
      deferred_zipFile_Close ?h
        (deferred_zipWriter_Close ?h
           (emit (Printf (Warn_access ''/w/site/private'' ErrPermission)) (snd ?walk))))"
    by blast
  with keys show ?thesis by simp
qed

text \<open>
  C6 as stated does not hold: the check before opening reads \<^verbatim>\<open>IsDir\<close> only, so
  a file that is not regular and not a directory is not skipped. A named pipe passes
  the check, is opened and is archived with no warning; a socket passes the check
  and the failure to open it is returned as an error.
\<close>

theorem nonregular_file_not_skipped_counterexample:
  "os_Stat run_host ''/w/run/events'' = Inr (pipe_info ''/w/run/events'')
   \<and> \<not> IsRegular (pipe_info ''/w/run/events'')
   \<and> fst (addFileToZip run_host new_state ''/w/run/events'' ''run/events'') = None
   \<and> map (\<lambda>e. (key e, src e, data e))
        (entries (snd (addFileToZip run_host new_state ''/w/run/events'' ''run/events'')))
       = [(''run/events'', ''/w/run/events'', ''ping'')]
   \<and> effects (snd (addFileToZip run_host new_state ''/w/run/events'' ''run/events''))
       = [Printf (Added ''run/events'')]
   \<and> os_Stat run_host ''/w/run/app.sock'' = Inr (socket_info ''/w/run/app.sock'')
   \<and> \<not> IsRegular (socket_info ''/w/run/app.sock'')
   \<and> addFileToZip run_host new_state ''/w/run/app.sock'' ''run/app.sock''
       = (Some (ErrOther ''no such device or address''),
          emit (Printf (Err_opening ''/w/run/app.sock'' (ErrOther ''no such device or address'')))
            new_state)"
proof -
  have sock: "addFileToZip run_host new_state ''/w/run/app.sock'' ''run/app.sock''
       = (Some (ErrOther ''no such device or address''),
          emit (Printf (Err_opening ''/w/run/app.sock'' (ErrOther ''no such device or address'')))
            new_state)"
    by (simp add: addFileToZip_def run_host_socket not_dir_special)
  have empty: "effects new_state = []" by (simp add: new_state_def)
  show ?thesis
    by (simp add: pipe_added sock run_host_pipe run_host_socket not_regular_special key_def empty)
qed

text \<open>
  C6, amended. In \<^verbatim>\<open>addFileToZip\<close>, when the check before opening finds the file
  missing (\<^verbatim>\<open>os.Stat\<close> fails) or finds a directory, the file is skipped with a
  warning and the call returns nil with the archive as it was. Every other path
  passes the check, whether it is a regular file or not, and is opened: the call
  then does what adding the open file does. When \<^verbatim>\<open>os.Open\<close> fails, the error
  is printed and returned, and it ends the job: the walk that made the call, the loop
  over the inputs and \<^verbatim>\<open>Zip\<close> each return it at once.
\<close>

theorem addFileToZip_recheck_skips_open_fails:
  "(os_Stat h filePath = Inl err \<longrightarrow>
      addFileToZip h st filePath zipPath =
        (None, emit (Printf (if IsNotExist err then Warn_not_exist filePath
                             else Warn_not_file filePath)) st))
   \<and> (os_Stat h filePath = Inr info \<and> fi_IsDir info \<longrightarrow>
      addFileToZip h st filePath zipPath = (None, emit (Printf (Warn_not_file filePath)) st))
   \<and> (os_Stat h filePath = Inr info \<and> \<not> fi_IsDir info \<and> os_Open h filePath = Inl err \<longrightarrow>
      addFileToZip h st filePath zipPath = (Some err, emit (Printf (Err_opening filePath err)) st))
   \<and> (os_Stat h filePath = Inr info \<and> \<not> fi_IsDir info \<and> os_Open h filePath = Inr f \<longrightarrow>
      addFileToZip h st filePath zipPath =
        (case addOpenFile h st f filePath zipPath of
           (ret, st1) \<Rightarrow>
             (ret, case f_Close f of
                     Some cerr \<Rightarrow> emit (Printf (Err_closing_file filePath cerr)) st1
                   | None \<Rightarrow> st1)))
   \<and> (addFileToZip h (st\<lparr>processed := (processed st)(zipPath := True)\<rparr>) filePath zipPath = (Some err, st')
        \<and> \<not> fi_IsDir winfo \<and> fp_Rel h baseDir filePath = Inr relPath
        \<and> fp_ToSlash h relPath = zipPath \<and> \<not> processed st zipPath \<longrightarrow>
      Walk h baseDir st (Visit_ok filePath winfo # vs) = (Some err, st'))
   \<and> (addFileToZip h st filePath zipPath = (Some err, st')
        \<and> fp_Abs h source = Inr filePath \<and> os_Stat h filePath = Inr info \<and> \<not> fi_IsDir info
        \<and> fp_ToSlash h (fp_Base h filePath) = zipPath \<and> \<not> processed st zipPath \<longrightarrow>
      zip_inputs h st (source # rest) = (Some err, st'))
   \<and> (os_Create h (OutputPath (loadOptions opts)) = None
        \<and> zip_inputs h new_state (InputPaths (loadOptions opts)) = (Some err, st') \<longrightarrow>
      fst (Zip h opts) = Some err)"
proof (intro conjI impI)
  assume "os_Stat h filePath = Inl err"
  then show "addFileToZip h st filePath zipPath =
        (None, emit (Printf (if IsNotExist err then Warn_not_exist filePath
                             else Warn_not_file filePath)) st)"
    by (simp add: addFileToZip_def)
next
  assume "os_Stat h filePath = Inr info \<and> fi_IsDir info"
  then show "addFileToZip h st filePath zipPath = (None, emit (Printf (Warn_not_file filePath)) st)"
    by (simp add: addFileToZip_def)
next
  assume "os_Stat h filePath = Inr info \<and> \<not> fi_IsDir info \<and> os_Open h filePath = Inl err"
  then show "addFileToZip h st filePath zipPath = (Some err, emit (Printf (Err_opening filePath err)) st)"
    by (simp add: addFileToZip_def)
next
  assume "os_Stat h filePath = Inr info \<and> \<not> fi_IsDir info \<and> os_Open h filePath = Inr f"
  then show "addFileToZip h st filePath zipPath =
        (case addOpenFile h st f filePath zipPath of
           (ret, st1) \<Rightarrow>
             (ret, case f_Close f of
                     Some cerr \<Rightarrow> emit (Printf (Err_closing_file filePath cerr)) st1
                   | None \<Rightarrow> st1))"
    using addFileToZip_opened [of h filePath info f st zipPath] by simp
next
  assume "addFileToZip h (st\<lparr>processed := (processed st)(zipPath := True)\<rparr>) filePath zipPath = (Some err, st')
        \<and> \<not> fi_IsDir winfo \<and> fp_Rel h baseDir filePath = Inr relPath
        \<and> fp_ToSlash h relPath = zipPath \<and> \<not> processed st zipPath"
  then show "Walk h baseDir st (Visit_ok filePath winfo # vs) = (Some err, st')"
    by (simp add: Let_def)
next
  assume "addFileToZip h st filePath zipPath = (Some err, st')
        \<and> fp_Abs h source = Inr filePath \<and> os_Stat h filePath = Inr info \<and> \<not> fi_IsDir info
        \<and> fp_ToSlash h (fp_Base h filePath) = zipPath \<and> \<not> processed st zipPath"
  then show "zip_inputs h st (source # rest) = (Some err, st')"
    by (simp add: Let_def)
next
  assume "os_Create h (OutputPath (loadOptions opts)) = None
        \<and> zip_inputs h new_state (InputPaths (loadOptions opts)) = (Some err, st')"
  then show "fst (Zip h opts) = Some err"
    by (simp add: fst_Zip)
qed

theorem addFileToZip_recheck_skips_open_fails_witness:
  "addFileToZip vault_host new_state ''/w/vault/gone'' ''vault/gone'' =
     (None, emit (Printf (Warn_not_exist ''/w/vault/gone'')) new_state)
   \<and> addFileToZip vault_host new_state ''/w/vault'' ''vault'' =
     (None, emit (Printf (Warn_not_file ''/w/vault'')) new_state)
   \<and> addFileToZip vault_host new_state ''/w/vault/key'' ''key'' =
     (Some ErrPermission, emit (Printf (Err_opening ''/w/vault/key'' ErrPermission)) new_state)
   \<and> zip_inputs vault_host new_state [''vault/key'', ''vault/ok.txt''] =
     (Some ErrPermission, emit (Printf (Err_opening ''/w/vault/key'' ErrPermission)) new_state)
   \<and> fst (Walk vault_host ''/w'' new_state
          [Visit_ok ''/w/vault/key'' (info_of ''/w/vault/key'' False (length ''secret'')),
           Visit_ok ''/w/vault/ok.txt'' (info_of ''/w/vault/ok.txt'' False (length ''fine''))])
       = Some ErrPermission
   \<and> fst (Zip vault_host [WithPaths [''vault/key'', ''vault/ok.txt''] ''out.zip''])
       = Some ErrPermission
   \<and> fst (addFileToZip run_host new_state ''/w/run/events'' ''run/events'') = None
   \<and> map (\<lambda>e. (key e, data e))
        (entries (snd (addFileToZip run_host new_state ''/w/run/events'' ''run/events'')))
       = [(''run/events'', ''ping'')]"
proof -
  have stat_gone: "os_Stat vault_host ''/w/vault/gone'' = Inl ErrNotExist"
    by (simp add: vault_host_def vault_fs_def unix_host_def)
  have stat_dir: "os_Stat vault_host ''/w/vault'' = Inr (info_of ''/w/vault'' True 0)"
    by (simp add: vault_host_def vault_fs_def unix_host_def)
  have stat_key: "os_Stat vault_host ''/w/vault/key'' = Inr (info_of ''/w/vault/key'' False (length ''secret''))"
    by (simp add: vault_host_def vault_fs_def unix_host_def)
  have open_key: "os_Open vault_host ''/w/vault/key'' = Inl ErrPermission"
    by (simp add: vault_host_def vault_fs_def unix_host_def)
  have abs_key: "fp_Abs vault_host ''vault/key'' = Inr ''/w/vault/key''"
    by (simp add: vault_host_def unix_host_simps)
  have base_key: "fp_ToSlash vault_host (fp_Base vault_host ''/w/vault/key'') = ''key''"
    by (simp add: vault_host_def unix_host_simps)
  have dirs: "fi_IsDir (info_of ''/w/vault'' True 0)" "\<not> fi_IsDir (info_of ''/w/vault/key'' False (length ''secret''))"
    by (simp_all add: info_of_def)
  have a: "addFileToZip vault_host new_state ''/w/vault/gone'' ''vault/gone'' =
     (None, emit (Printf (Warn_not_exist ''/w/vault/gone'')) new_state)"
    using addFileToZip_recheck_skips_open_fails
      [where h = vault_host and filePath = "''/w/vault/gone''" and err = ErrNotExist
         and st = new_state and zipPath = "''vault/gone''"] stat_gone
    by (simp add: IsNotExist_def)
  have b: "addFileToZip vault_host new_state ''/w/vault'' ''vault'' =
     (None, emit (Printf (Warn_not_file ''/w/vault'')) new_state)"
    using addFileToZip_recheck_skips_open_fails
      [where h = vault_host and filePath = "''/w/vault''" and st = new_state
         and zipPath = "''vault''" and info = "info_of ''/w/vault'' True 0"]
      stat_dir dirs by simp
  have c: "addFileToZip vault_host new_state ''/w/vault/key'' ''key'' =
     (Some ErrPermission, emit (Printf (Err_opening ''/w/vault/key'' ErrPermission)) new_state)"
    using addFileToZip_recheck_skips_open_fails
      [where h = vault_host and filePath = "''/w/vault/key''" and err = ErrPermission
         and st = new_state and zipPath = "''key''"
         and info = "info_of ''/w/vault/key'' False (length ''secret'')"]
      stat_key open_key dirs by simp
  have d: "zip_inputs vault_host new_state [''vault/key'', ''vault/ok.txt''] =
     (Some ErrPermission, emit (Printf (Err_opening ''/w/vault/key'' ErrPermission)) new_state)"
    using addFileToZip_recheck_skips_open_fails
      [where h = vault_host and filePath = "''/w/vault/key''" and err = ErrPermission
         and st = new_state and zipPath = "''key''"
         and info = "info_of ''/w/vault/key'' False (length ''secret'')"
         and st' = "emit (Printf (Err_opening ''/w/vault/key'' ErrPermission)) new_state"
         and source = "''vault/key''" and rest = "[''vault/ok.txt'']"]
      c abs_key stat_key base_key dirs by (simp add: new_state_def)
  let ?marked = "new_state\<lparr>processed := (processed new_state)(''vault/key'' := True)\<rparr>"
  let ?add = "addFileToZip vault_host ?marked ''/w/vault/key'' ''vault/key''"
  have rel_key: "fp_Rel vault_host ''/w'' ''/w/vault/key'' = Inr ''vault/key''" by code_simp
  have slash_key: "fp_ToSlash vault_host ''vault/key'' = ''vault/key''" by code_simp
  have "fst ?add = Some ErrPermission" by code_simp
  then have add: "?add = (Some ErrPermission, snd ?add)" by (simp add: prod_eq_iff)
  have fresh: "\<not> processed new_state ''vault/key''" by (simp add: new_state_def)
  have "Walk vault_host ''/w'' new_state
          [Visit_ok ''/w/vault/key'' (info_of ''/w/vault/key'' False (length ''secret'')),
           Visit_ok ''/w/vault/ok.txt'' (info_of ''/w/vault/ok.txt'' False (length ''fine''))]
       = (Some ErrPermission, snd ?add)"
    using addFileToZip_recheck_skips_open_fails
      [where h = vault_host and filePath = "''/w/vault/key''" and err = ErrPermission
         and st = new_state and zipPath = "''vault/key''" and st' = "snd ?add"
         and winfo = "info_of ''/w/vault/key'' False (length ''secret'')" and baseDir = "''/w''"
         and relPath = "''vault/key''"
         and vs = "[Visit_ok ''/w/vault/ok.txt'' (info_of ''/w/vault/ok.txt'' False (length ''fine''))]"]
      add rel_key slash_key dirs(2) fresh by blast
  then have e: "fst (Walk vault_host ''/w'' new_state
          [Visit_ok ''/w/vault/key'' (info_of ''/w/vault/key'' False (length ''secret'')),
           Visit_ok ''/w/vault/ok.txt'' (info_of ''/w/vault/ok.txt'' False (length ''fine''))])
       = Some ErrPermission"
    by simp
  have created: "os_Create vault_host
      (OutputPath (loadOptions [WithPaths [''vault/key'', ''vault/ok.txt''] ''out.zip''])) = None"
    by (simp add: vault_host_def unix_host_def)
  have inputs: "InputPaths (loadOptions [WithPaths [''vault/key'', ''vault/ok.txt''] ''out.zip''])
      = [''vault/key'', ''vault/ok.txt'']"
    by (simp add: loadOptions_def WithPaths_def)
  have f: "fst (Zip vault_host [WithPaths [''vault/key'', ''vault/ok.txt''] ''out.zip''])
       = Some ErrPermission"
    using addFileToZip_recheck_skips_open_fails
      [where h = vault_host and err = ErrPermission
         and opts = "[WithPaths [''vault/key'', ''vault/ok.txt''] ''out.zip'']"
         and st' = "emit (Printf (Err_opening ''/w/vault/key'' ErrPermission)) new_state"]
      created inputs d by simp
  let ?pipe = "\<lparr>f_Stat = Inr (pipe_info ''/w/run/events''), f_Copy = (''ping'', None),
                f_Close = None\<rparr>"
  have "addFileToZip run_host new_state ''/w/run/events'' ''run/events'' =
        (case addOpenFile run_host new_state ?pipe ''/w/run/events'' ''run/events'' of
           (ret, st1) \<Rightarrow>
             (ret, case f_Close ?pipe of
                     Some cerr \<Rightarrow> emit (Printf (Err_closing_file ''/w/run/events'' cerr)) st1
                   | None \<Rightarrow> st1))"
    using addFileToZip_recheck_skips_open_fails
      [where h = run_host and filePath = "''/w/run/events''"
         and info = "pipe_info ''/w/run/events''" and f = ?pipe and st = new_state
         and zipPath = "''run/events''"]
      run_host_pipe(1,2) not_dir_special(1) by blast
  then have g: "fst (addFileToZip run_host new_state ''/w/run/events'' ''run/events'') = None"
    "map (\<lambda>e. (key e, data e))
        (entries (snd (addFileToZip run_host new_state ''/w/run/events'' ''run/events'')))
       = [(''run/events'', ''ping'')]"
    by (simp_all add: pipe_addOpenFile key_def)
  from a b c d e f g show ?thesis by blast
qed

text \<open>
  C7 as stated does not hold: on a host whose zip writer cannot be closed, a job with
  no fatal error returns nil.
\<close>

theorem finalize_failure_counterexample:
  "fst (zip_inputs full_disk_host new_state [''proj'']) = None
   \<and> zw_Close full_disk_host
        (entries (snd (zip_inputs full_disk_host new_state [''proj''])))
       = Some (ErrOther ''no space left on device'')
   \<and> fst (Zip full_disk_host [WithPaths [''proj''] ''out.zip'']) = None"
proof -
  have "fst (zip_inputs full_disk_host new_state [''proj'']) = None" by code_simp
  moreover have "zw_Close full_disk_host
        (entries (snd (zip_inputs full_disk_host new_state [''proj''])))
       = Some (ErrOther ''no space left on device'')"
    by (simp add: full_disk_host_def)
  moreover have "fst (Zip full_disk_host [WithPaths [''proj''] ''out.zip'']) = None" by code_simp
  ultimately show ?thesis by simp
qed

text \<open>
  C7, amended. A failure to close the zip writer is printed and is not returned: when
  the output file was created and the loop over the inputs ended without a fatal
  error, \<^verbatim>\<open>Zip\<close> returns nil although closing the zip writer failed, and the
  error of the close is among the lines printed.
\<close>

theorem finalize_failure_printed_not_returned:
  "os_Create h (OutputPath (loadOptions opts)) = None
   \<and> zip_inputs h new_state (InputPaths (loadOptions opts)) = (None, st)
   \<and> zw_Close h (entries st) = Some err \<longrightarrow>
   fst (Zip h opts) = None
   \<and> ZipWriter_Close (Some err) \<in> set (effects (snd (Zip h opts)))
   \<and> Printf (Err_closing_zip err) \<in> set (effects (snd (Zip h opts)))"
proof
  assume a: "os_Create h (OutputPath (loadOptions opts)) = None
   \<and> zip_inputs h new_state (InputPaths (loadOptions opts)) = (None, st)
   \<and> zw_Close h (entries st) = Some err"
  then have "Zip h opts = (None, deferred_zipFile_Close h (deferred_zipWriter_Close h st))"
    by (simp add: Zip_created)
  with a show "fst (Zip h opts) = None
   \<and> ZipWriter_Close (Some err) \<in> set (effects (snd (Zip h opts)))
   \<and> Printf (Err_closing_zip err) \<in> set (effects (snd (Zip h opts)))"
    by (simp add: effects_deferred)
qed

theorem finalize_failure_printed_not_returned_witness:
  "fst (Zip full_disk_host [WithPaths [''proj''] ''out.zip'']) = None
   \<and> ZipWriter_Close (Some (ErrOther ''no space left on device''))
       \<in> set (effects (snd (Zip full_disk_host [WithPaths [''proj''] ''out.zip''])))
   \<and> Printf (Err_closing_zip (ErrOther ''no space left on device''))
       \<in> set (effects (snd (Zip full_disk_host [WithPaths [''proj''] ''out.zip''])))"
proof -
  let ?h = full_disk_host
  let ?opts = "[WithPaths [''proj''] ''out.zip'']"
  let ?run = "zip_inputs ?h new_state (InputPaths (loadOptions ?opts))"
  have created: "os_Create ?h (OutputPath (loadOptions ?opts)) = None"
    by (simp add: full_disk_host_def proj_host_def unix_host_def)
  have ret: "fst ?run = None" by code_simp
  then have run: "?run = (None, snd ?run)" by (simp add: prod_eq_iff)
  have zw: "zw_Close ?h (entries (snd ?run)) = Some (ErrOther ''no space left on device'')"
    by (simp add: full_disk_host_def)
  from finalize_failure_printed_not_returned
         [of ?h ?opts "snd ?run" "ErrOther ''no space left on device''"] created run zw
  show ?thesis by blast
qed

text \<open>
  C8. Once the output file is created, however the loop over the inputs ends (with nil
  or with a fatal error), \<^verbatim>\<open>Zip\<close> then closes the zip writer and after it the
  output file, prints the error of a close that fails, and returns the value the loop
  ended with: a failing close changes neither the value returned nor the entries.
\<close>

theorem Zip_closes_writer_then_file:
  "os_Create h (OutputPath (loadOptions opts)) = None
   \<and> zip_inputs h new_state (InputPaths (loadOptions opts)) = (ret, st) \<longrightarrow>
   fst (Zip h opts) = ret
   \<and> entries (snd (Zip h opts)) = entries st
   \<and> effects (snd (Zip h opts)) =
       effects st
       @ ZipWriter_Close (zw_Close h (entries st))
         # (case zw_Close h (entries st) of
              Some err \<Rightarrow> [Printf (Err_closing_zip err)] | None \<Rightarrow> [])
       @ ZipFile_Close (zf_Close h)
         # (case zf_Close h of Some err \<Rightarrow> [Printf (Err_creating_zip err)] | None \<Rightarrow> [])"
proof
  assume "os_Create h (OutputPath (loadOptions opts)) = None
   \<and> zip_inputs h new_state (InputPaths (loadOptions opts)) = (ret, st)"
  then have "Zip h opts = (ret, deferred_zipFile_Close h (deferred_zipWriter_Close h st))"
    by (simp add: Zip_created)
  then show "fst (Zip h opts) = ret
   \<and> entries (snd (Zip h opts)) = entries st
   \<and> effects (snd (Zip h opts)) =
       effects st
       @ ZipWriter_Close (zw_Close h (entries st))
         # (case zw_Close h (entries st) of
              Some err \<Rightarrow> [Printf (Err_closing_zip err)] | None \<Rightarrow> [])
       @ ZipFile_Close (zf_Close h)
         # (case zf_Close h of Some err \<Rightarrow> [Printf (Err_creating_zip err)] | None \<Rightarrow> [])"
    by (simp add: effects_deferred)
qed

theorem Zip_closes_writer_then_file_witness:
  "fst (Zip failing_vault_host [WithPaths [''vault''] ''out.zip'']) = Some ErrPermission
   \<and> effects (snd (Zip failing_vault_host [WithPaths [''vault''] ''out.zip''])) =
       [Printf (Skipping_directory ''/w/vault''),
        Printf (Warn_not_exist ''/w/vault/gone''),
        Printf (Err_opening ''/w/vault/key'' ErrPermission),
        ZipWriter_Close (Some (ErrOther ''no space left on device'')),
        Printf (Err_closing_zip (ErrOther ''no space left on device'')),
        ZipFile_Close (Some (ErrOther ''input/output error'')),
        Printf (Err_creating_zip (ErrOther ''input/output error''))]"
proof -
  let ?h = failing_vault_host
  let ?opts = "[WithPaths [''vault''] ''out.zip'']"
  let ?run = "zip_inputs ?h new_state (InputPaths (loadOptions ?opts))"
  have created: "os_Create ?h (OutputPath (loadOptions ?opts)) = None"
    by (simp add: failing_vault_host_def vault_host_def unix_host_def)
  have run: "?run = (fst ?run, snd ?run)" by simp
  have ret: "fst ?run = Some ErrPermission" by code_simp
  have eff: "effects (snd ?run) =
       [Printf (Skipping_directory ''/w/vault''),
        Printf (Warn_not_exist ''/w/vault/gone''),
        Printf (Err_opening ''/w/vault/key'' ErrPermission)]" by code_simp
  have zw: "zw_Close ?h (entries (snd ?run)) = Some (ErrOther ''no space left on device'')"
    by (simp add: failing_vault_host_def)
  have zf: "zf_Close ?h = Some (ErrOther ''input/output error'')"
    by (simp add: failing_vault_host_def)
  from Zip_closes_writer_then_file [of ?h ?opts "fst ?run" "snd ?run"] created run
  show ?thesis by (simp add: ret eff zw zf)
qed

text \<open>
  C9. Two jobs whose options differ in \<^verbatim>\<open>CompressionLevel\<close>,
  \<^verbatim>\<open>IncludeOriginal\<close> and \<^verbatim>\<open>Abort\<close> only (the same inputs and output path,
  on the same host) return the same value and leave the same archive and effects, and
  every entry of the archive has the deflate method.
\<close>

theorem Zip_ignores_level_original_abort:
  "(InputPaths (loadOptions opts1) = InputPaths (loadOptions opts2)
      \<and> OutputPath (loadOptions opts1) = OutputPath (loadOptions opts2)
     \<longrightarrow> Zip h opts1 = Zip h opts2)
   \<and> (\<forall>e \<in> set (entries (snd (Zip h opts1))). Method (hdr e) = Deflate)"
proof (intro conjI impI ballI)
  assume "InputPaths (loadOptions opts1) = InputPaths (loadOptions opts2)
      \<and> OutputPath (loadOptions opts1) = OutputPath (loadOptions opts2)"
  then show "Zip h opts1 = Zip h opts2" by (simp add: Zip_def Let_def split: option.splits)
next
  fix e assume "e \<in> set (entries (snd (Zip h opts1)))"
  from Zip_entries_made [OF this] show "Method (hdr e) = Deflate" by (simp add: made_def)
qed

theorem Zip_ignores_level_original_abort_witness:
  "Zip proj_host [WithPaths [''proj''] ''out.zip'']
     = Zip proj_host [WithPaths [''proj''] ''out.zip'',
         \<lambda>opt. opt\<lparr>CompressionLevel := 9, IncludeOriginal := True, Abort := Chan_closed\<rparr>]
   \<and> CompressionLevel (loadOptions [WithPaths [''proj''] ''out.zip'']) = 0
   \<and> CompressionLevel (loadOptions [WithPaths [''proj''] ''out.zip'',
         \<lambda>opt. opt\<lparr>CompressionLevel := 9, IncludeOriginal := True, Abort := Chan_closed\<rparr>]) = 9
   \<and> map key (entries (snd (Zip proj_host [WithPaths [''proj''] ''out.zip''])))
       = [''proj/a.txt'', ''proj/sub/b.txt'']
   \<and> Method (hdr (hd (entries (snd (Zip proj_host [WithPaths [''proj''] ''out.zip''])))))
       = Deflate"
proof -
  let ?a = "[WithPaths [''proj''] ''out.zip'']"
  let ?b = "[WithPaths [''proj''] ''out.zip'',
         \<lambda>opt. opt\<lparr>CompressionLevel := 9, IncludeOriginal := True, Abort := Chan_closed\<rparr>]"
  have same: "InputPaths (loadOptions ?a) = InputPaths (loadOptions ?b)
      \<and> OutputPath (loadOptions ?a) = OutputPath (loadOptions ?b)"
    by (simp add: loadOptions_def WithPaths_def)
  have levels: "CompressionLevel (loadOptions ?a) = 0" "CompressionLevel (loadOptions ?b) = 9"
    by (simp_all add: loadOptions_def WithPaths_def)
  have keys: "map key (entries (snd (Zip proj_host ?a))) = [''proj/a.txt'', ''proj/sub/b.txt'']"
    by code_simp
  then have "entries (snd (Zip proj_host ?a)) \<noteq> []" by auto
  then have "hd (entries (snd (Zip proj_host ?a))) \<in> set (entries (snd (Zip proj_host ?a)))"
    by simp
  with Zip_ignores_level_original_abort [of ?a ?b proj_host] same levels keys
  show ?thesis by blast
qed

text \<open>
  C10. In the walk of a directory the key of a file is marked as seen before
  \<^verbatim>\<open>addFileToZip\<close> runs: whatever the call returns, the key is seen afterwards.
  When the check before opening skips the file, the call returns nil, no entry is
  written and the key stays seen; once a key is seen, no input processed later adds
  an entry under it, so that a job whose first file with a key is skipped has no
  entry for the key. For an input that is a file the key is marked only after
  \<^verbatim>\<open>addFileToZip\<close> has returned nil: when it returns an error, the key is not
  seen in the state the job ends with.
\<close>

theorem walk_marks_key_before_add:
  "(\<not> fi_IsDir info \<and> fp_Rel h b p = Inr relPath \<and> fp_ToSlash h relPath = k
      \<and> \<not> processed st k \<longrightarrow>
      walkFn h b st (Visit_ok p info)
        = addFileToZip h (st\<lparr>processed := (processed st)(k := True)\<rparr>) p k
      \<and> processed (snd (walkFn h b st (Visit_ok p info))) k
      \<and> (\<not> is_file h p \<longrightarrow>
           fst (walkFn h b st (Visit_ok p info)) = None
           \<and> entries (snd (walkFn h b st (Visit_ok p info))) = entries st))
   \<and> (processed st k \<longrightarrow>
        processed (snd (zip_inputs h st inputs)) k
        \<and> filter (\<lambda>e. key e = k) (entries (snd (zip_inputs h st inputs)))
            = filter (\<lambda>e. key e = k) (entries st)
        \<and> processed (snd (Walk h b st vs)) k
        \<and> filter (\<lambda>e. key e = k) (entries (snd (Walk h b st vs)))
            = filter (\<lambda>e. key e = k) (entries st))
   \<and> (first_with_key k (discovered h (InputPaths (loadOptions opts))) = Some p
        \<and> \<not> is_file h p \<longrightarrow>
        k \<notin> key ` set (entries (snd (Zip h opts))))
   \<and> (fp_Abs h source = Inr p \<and> os_Stat h p = Inr info \<and> \<not> fi_IsDir info
        \<and> fp_ToSlash h (fp_Base h p) = k \<and> \<not> processed st k \<longrightarrow>
        (addFileToZip h st p k = (Some err, st') \<longrightarrow>
           zip_inputs h st (source # rest) = (Some err, st') \<and> \<not> processed st' k)
        \<and> (addFileToZip h st p k = (None, st') \<longrightarrow>
           zip_inputs h st (source # rest)
             = zip_inputs h (st'\<lparr>processed := (processed st')(k := True)\<rparr>) rest))"
proof (intro conjI impI)
  assume a: "\<not> fi_IsDir info \<and> fp_Rel h b p = Inr relPath \<and> fp_ToSlash h relPath = k
      \<and> \<not> processed st k"
  then show eq: "walkFn h b st (Visit_ok p info)
        = addFileToZip h (st\<lparr>processed := (processed st)(k := True)\<rparr>) p k"
    by (auto simp: Let_def)
  show "processed (snd (walkFn h b st (Visit_ok p info))) k"
    unfolding eq
    using addFileToZip_processed [of h "st\<lparr>processed := (processed st)(k := True)\<rparr>" p k]
    by (cases "addFileToZip h (st\<lparr>processed := (processed st)(k := True)\<rparr>) p k") auto
  assume "\<not> is_file h p"
  then show "fst (walkFn h b st (Visit_ok p info)) = None"
    and "entries (snd (walkFn h b st (Visit_ok p info))) = entries st"
    unfolding eq
    using addFileToZip_not_file [of h "st\<lparr>processed := (processed st)(k := True)\<rparr>" p k]
    by (cases "addFileToZip h (st\<lparr>processed := (processed st)(k := True)\<rparr>) p k"; auto)+
next
  assume seen: "processed st k"
  have "extends h st (snd (zip_inputs h st inputs))"
    by (rule zip_inputs_extends [of h st inputs "fst (zip_inputs h st inputs)"]) simp
  from extends_seen_key [OF this seen]
  show "processed (snd (zip_inputs h st inputs)) k"
    and "filter (\<lambda>e. key e = k) (entries (snd (zip_inputs h st inputs)))
            = filter (\<lambda>e. key e = k) (entries st)"
    by simp_all
  have "extends h st (snd (Walk h b st vs))"
    by (rule Walk_extends [of h b st vs "fst (Walk h b st vs)"]) simp
  from extends_seen_key [OF this seen]
  show "processed (snd (Walk h b st vs)) k"
    and "filter (\<lambda>e. key e = k) (entries (snd (Walk h b st vs)))
            = filter (\<lambda>e. key e = k) (entries st)"
    by simp_all
next
  assume "first_with_key k (discovered h (InputPaths (loadOptions opts))) = Some p
        \<and> \<not> is_file h p"
  then show "k \<notin> key ` set (entries (snd (Zip h opts)))"
    using Zip_no_entry_when_first_skipped [of k h opts p] by blast
next
  assume a: "fp_Abs h source = Inr p \<and> os_Stat h p = Inr info \<and> \<not> fi_IsDir info
        \<and> fp_ToSlash h (fp_Base h p) = k \<and> \<not> processed st k"
  assume add: "addFileToZip h st p k = (Some err, st')"
  with a show "zip_inputs h st (source # rest) = (Some err, st')" by (auto simp: Let_def)
  from a addFileToZip_processed [OF add] show "\<not> processed st' k" by simp
next
  assume a: "fp_Abs h source = Inr p \<and> os_Stat h p = Inr info \<and> \<not> fi_IsDir info
        \<and> fp_ToSlash h (fp_Base h p) = k \<and> \<not> processed st k"
  assume add: "addFileToZip h st p k = (None, st')"
  with a show "zip_inputs h st (source # rest)
             = zip_inputs h (st'\<lparr>processed := (processed st')(k := True)\<rparr>) rest"
    by (auto simp: Let_def)
qed

theorem walk_marks_key_before_add_witness:
  "fst (walkFn copies_host ''/w/old'' new_state
          (Visit_ok ''/w/old/proj/cfg'' (info_of ''/w/old/proj/cfg'' False 0))) = None
   \<and> processed (snd (walkFn copies_host ''/w/old'' new_state
          (Visit_ok ''/w/old/proj/cfg'' (info_of ''/w/old/proj/cfg'' False 0)))) ''proj/cfg''
   \<and> entries (snd (walkFn copies_host ''/w/old'' new_state
          (Visit_ok ''/w/old/proj/cfg'' (info_of ''/w/old/proj/cfg'' False 0)))) = []
   \<and> filter (\<lambda>e. key e = ''proj/cfg'')
        (entries (snd (zip_inputs copies_host
           (snd (walkFn copies_host ''/w/old'' new_state
              (Visit_ok ''/w/old/proj/cfg'' (info_of ''/w/old/proj/cfg'' False 0))))
           [''new/proj'']))) = []
   \<and> is_file copies_host ''/w/new/proj/cfg''
   \<and> ''proj/cfg'' \<notin> key ` set (entries (snd (Zip copies_host
          [WithPaths [''old/proj'', ''new/proj''] ''out.zip''])))
   \<and> fst (zip_inputs vault_host new_state [''vault/key'', ''vault/ok.txt'']) = Some ErrPermission
   \<and> \<not> processed (snd (zip_inputs vault_host new_state [''vault/key'', ''vault/ok.txt''])) ''key''
   \<and> zip_inputs vault_host new_state [''vault/ok.txt'', ''vault/key'']
       = zip_inputs vault_host
           ((snd (addFileToZip vault_host new_state ''/w/vault/ok.txt'' ''ok.txt''))
              \<lparr>processed :=
                 (processed (snd (addFileToZip vault_host new_state ''/w/vault/ok.txt'' ''ok.txt'')))
                 (''ok.txt'' := True)\<rparr>)
           [''vault/key'']"
proof -
  let ?h = copies_host
  let ?p = "''/w/old/proj/cfg''"
  let ?k = "''proj/cfg''"
  let ?info = "info_of ?p False 0"
  let ?st1 = "snd (walkFn ?h ''/w/old'' new_state (Visit_ok ?p ?info))"
  let ?opts = "[WithPaths [''old/proj'', ''new/proj''] ''out.zip'']"
  have notdir: "\<not> fi_IsDir ?info" by (simp add: info_of_def)
  have rel: "fp_Rel ?h ''/w/old'' ?p = Inr ?k" by code_simp
  have slash: "fp_ToSlash ?h ?k = ?k" by code_simp
  have fresh: "\<not> processed new_state ?k" by (simp add: new_state_def)
  have skipped: "\<not> is_file ?h ?p" by code_simp
  have newer: "is_file ?h ''/w/new/proj/cfg''" by code_simp
  have first: "first_with_key ?k (discovered ?h (InputPaths (loadOptions ?opts))) = Some ?p"
    by code_simp
  from walk_marks_key_before_add [of ?info ?h "''/w/old''" ?p ?k ?k new_state]
    notdir rel slash fresh skipped
  have a: "fst (walkFn ?h ''/w/old'' new_state (Visit_ok ?p ?info)) = None"
    "processed ?st1 ?k" "entries ?st1 = entries new_state"
    by blast+
  from walk_marks_key_before_add [of _ ?h _ _ ?k ?k ?st1 "[''new/proj'']"] a(2)
  have b: "filter (\<lambda>e. key e = ?k) (entries (snd (zip_inputs ?h ?st1 [''new/proj''])))
            = filter (\<lambda>e. key e = ?k) (entries ?st1)"
    by blast
  from walk_marks_key_before_add [of _ ?h _ ?p ?k ?k _ _ _ ?opts] first skipped
  have c: "?k \<notin> key ` set (entries (snd (Zip ?h ?opts)))" by blast
  let ?v = vault_host
  let ?kp = "''/w/vault/key''"
  let ?kinfo = "info_of ?kp False (length ''secret'')"
  let ?bad = "addFileToZip ?v new_state ?kp ''key''"
  have kabs: "fp_Abs ?v ''vault/key'' = Inr ?kp" by code_simp
  have kstat: "os_Stat ?v ?kp = Inr ?kinfo" by code_simp
  have knotdir: "\<not> fi_IsDir ?kinfo" by (simp add: info_of_def)
  have kbase: "fp_ToSlash ?v (fp_Base ?v ?kp) = ''key''" by code_simp
  have kfresh: "\<not> processed new_state ''key''" by (simp add: new_state_def)
  have "fst ?bad = Some ErrPermission" by code_simp
  then have kadd: "?bad = (Some ErrPermission, snd ?bad)" by (simp add: prod_eq_iff)
  from walk_marks_key_before_add
    [of ?kinfo ?v _ ?kp _ "''key''" new_state _ _ _ "''vault/key''" ErrPermission "snd ?bad"
      "[''vault/ok.txt'']"]
    kabs kstat knotdir kbase kfresh kadd
  have d: "zip_inputs ?v new_state [''vault/key'', ''vault/ok.txt''] = (Some ErrPermission, snd ?bad)"
    "\<not> processed (snd ?bad) ''key''"
    by blast+
  let ?op = "''/w/vault/ok.txt''"
  let ?oinfo = "info_of ?op False (length ''fine'')"
  let ?good = "addFileToZip ?v new_state ?op ''ok.txt''"
  have oabs: "fp_Abs ?v ''vault/ok.txt'' = Inr ?op" by code_simp
  have ostat: "os_Stat ?v ?op = Inr ?oinfo" by code_simp
  have onotdir: "\<not> fi_IsDir ?oinfo" by (simp add: info_of_def)
  have obase: "fp_ToSlash ?v (fp_Base ?v ?op) = ''ok.txt''" by code_simp
  have ofresh: "\<not> processed new_state ''ok.txt''" by (simp add: new_state_def)
  have "fst ?good = None" by code_simp
  then have oadd: "?good = (None, snd ?good)" by (simp add: prod_eq_iff)
  from walk_marks_key_before_add
    [of ?oinfo ?v _ ?op _ "''ok.txt''" new_state _ _ _ "''vault/ok.txt''" _ "snd ?good"
      "[''vault/key'']"]
    oabs ostat onotdir obase ofresh oadd
  have e: "zip_inputs ?v new_state [''vault/ok.txt'', ''vault/key'']
       = zip_inputs ?v ((snd ?good)\<lparr>processed := (processed (snd ?good))(''ok.txt'' := True)\<rparr>)
           [''vault/key'']"
    by blast
  from a b c d e newer show ?thesis by (simp add: new_state_def)
qed

end
